theory Spec2Isabelle
  imports Main "HOL-Library.AList"
begin

section \<open>Python text and the builtins used by ConfigParser\<close>

text \<open>
  A Python \<open>str\<close> is a sequence of code points. The model takes \<open>string\<close> for it and reads
  a \<open>char\<close> as the code point of the same number, so it covers the texts whose code
  points are below 256 (ASCII and the Latin-1 supplement). The character classes below
  are those of CPython on that range.
\<close>

abbreviation LF :: char where "LF \<equiv> CHR 0x0A"
abbreviation CR :: char where "CR \<equiv> CHR 0x0D"
abbreviation SP :: char where "SP \<equiv> CHR 0x20"

text \<open>\<open>str.isspace\<close> on one character; the set \<open>str.strip()\<close> removes.\<close>

definition isspace :: "char \<Rightarrow> bool" where
  "isspace c \<longleftrightarrow> c \<in> set [CHR 0x09, CHR 0x0A, CHR 0x0B, CHR 0x0C, CHR 0x0D,
     CHR 0x1C, CHR 0x1D, CHR 0x1E, CHR 0x1F, CHR 0x20, CHR 0x85, CHR 0xA0]"

definition lstrip :: "string \<Rightarrow> string" where
  "lstrip s = dropWhile isspace s"

definition rstrip :: "string \<Rightarrow> string" where
  "rstrip s = rev (dropWhile isspace (rev s))"

definition strip :: "string \<Rightarrow> string" where
  "strip s = rstrip (lstrip s)"

text \<open>\<open>str.lower\<close>: the letters A-Z and the Latin-1 capitals (all of 0xC0-0xDE but the
  multiplication sign 0xD7) have a lower-case form, 32 code points up.\<close>

definition uppercase :: string where
  "uppercase = ''ABCDEFGHIJKLMNOPQRSTUVWXYZ'' @
     [CHR 0xC0, CHR 0xC1, CHR 0xC2, CHR 0xC3, CHR 0xC4, CHR 0xC5, CHR 0xC6, CHR 0xC7,
      CHR 0xC8, CHR 0xC9, CHR 0xCA, CHR 0xCB, CHR 0xCC, CHR 0xCD, CHR 0xCE, CHR 0xCF,
      CHR 0xD0, CHR 0xD1, CHR 0xD2, CHR 0xD3, CHR 0xD4, CHR 0xD5, CHR 0xD6, CHR 0xD8,
      CHR 0xD9, CHR 0xDA, CHR 0xDB, CHR 0xDC, CHR 0xDD, CHR 0xDE]"

definition lowercase :: string where
  "lowercase = ''abcdefghijklmnopqrstuvwxyz'' @
     [CHR 0xE0, CHR 0xE1, CHR 0xE2, CHR 0xE3, CHR 0xE4, CHR 0xE5, CHR 0xE6, CHR 0xE7,
      CHR 0xE8, CHR 0xE9, CHR 0xEA, CHR 0xEB, CHR 0xEC, CHR 0xED, CHR 0xEE, CHR 0xEF,
      CHR 0xF0, CHR 0xF1, CHR 0xF2, CHR 0xF3, CHR 0xF4, CHR 0xF5, CHR 0xF6, CHR 0xF8,
      CHR 0xF9, CHR 0xFA, CHR 0xFB, CHR 0xFC, CHR 0xFD, CHR 0xFE]"

definition lower_char :: "char \<Rightarrow> char" where
  "lower_char c = (case map_of (zip uppercase lowercase) c of None \<Rightarrow> c | Some d \<Rightarrow> d)"

definition lower :: "string \<Rightarrow> string" where
  "lower s = map lower_char s"

text \<open>\<open>str.isdigit\<close>: true of a non-empty string all of whose characters have the Unicode
  property Digit. Below 256 these are 0-9 and the superscripts two, three and one.\<close>

definition ascii_digit :: "char \<Rightarrow> bool" where
  "ascii_digit c \<longleftrightarrow> c \<in> set ''0123456789''"

definition isdigit_char :: "char \<Rightarrow> bool" where
  "isdigit_char c \<longleftrightarrow> ascii_digit c \<or> c \<in> set [CHR 0xB2, CHR 0xB3, CHR 0xB9]"

definition isdigit :: "string \<Rightarrow> bool" where
  "isdigit s \<longleftrightarrow> s \<noteq> [] \<and> list_all isdigit_char s"

text \<open>\<open>str.split(' ', 1)\<close>: at most one split, at the first space character.\<close>

definition split_space1 :: "string \<Rightarrow> string list" where
  "split_space1 s =
     (if SP \<in> set s
      then [takeWhile (\<lambda>c. c \<noteq> SP) s, tl (dropWhile (\<lambda>c. c \<noteq> SP) s)]
      else [s])"

datatype error = ValueError | TypeError | OSError

subsection \<open>Numeric literals\<close>

text \<open>Before they parse, \<open>int()\<close> and \<open>float()\<close> turn every non-ASCII whitespace character
  into a space and then drop the leading and trailing C whitespace (0x09-0x0D and
  space; not 0x1C-0x1F).\<close>

definition c_space :: "char \<Rightarrow> bool" where
  "c_space c \<longleftrightarrow> c \<in> set [CHR 0x09, CHR 0x0A, CHR 0x0B, CHR 0x0C, CHR 0x0D, CHR 0x20]"

definition number_text :: "string \<Rightarrow> string" where
  "number_text s =
     (let t = map (\<lambda>c. if c = CHR 0x85 \<or> c = CHR 0xA0 then SP else c) s
      in rev (dropWhile c_space (rev (dropWhile c_space t))))"

text \<open>A run of digits in which single underscores may stand between two digits.\<close>

fun digitpart :: "string \<Rightarrow> bool" where
  "digitpart [] = False"
| "digitpart [c] = ascii_digit c"
| "digitpart (c # d # cs) =
     (ascii_digit c \<and> (if d = CHR ''_'' then digitpart cs else digitpart (d # cs)))"

definition digit_val :: "char \<Rightarrow> nat" where
  "digit_val c = of_char c - 48"

definition digits_val :: "string \<Rightarrow> nat" where
  "digits_val s = foldl (\<lambda>acc c. 10 * acc + digit_val c) 0 (filter (\<lambda>c. c \<noteq> CHR ''_'') s)"

definition unsign :: "string \<Rightarrow> bool \<times> string" where
  "unsign s =
     (case s of
        [] \<Rightarrow> (False, [])
      | c # cs \<Rightarrow> if c = CHR ''-'' then (True, cs)
                 else if c = CHR ''+'' then (False, cs) else (False, s))"

text \<open>\<open>int(s)\<close> in base 10. The conversion is taken without a bound on the number of
  digits.\<close>

definition py_int :: "string \<Rightarrow> error + int" where
  "py_int s =
     (let (neg, body) = unsign (number_text s)
      in if digitpart body
         then Inr (if neg then - int (digits_val body) else int (digits_val body))
         else Inl ValueError)"

text \<open>The literals \<open>float(s)\<close> accepts: an optional sign, then \<open>inf\<close>, \<open>infinity\<close> or \<open>nan\<close> in
  any case, or a decimal number with an optional exponent.\<close>

definition number_syntax :: "string \<Rightarrow> bool" where
  "number_syntax m =
     (if CHR ''.'' \<in> set m
      then (let a = takeWhile (\<lambda>c. c \<noteq> CHR ''.'') m;
                b = tl (dropWhile (\<lambda>c. c \<noteq> CHR ''.'') m)
            in (a = [] \<and> digitpart b) \<or> (digitpart a \<and> (b = [] \<or> digitpart b)))
      else digitpart m)"

definition is_e :: "char \<Rightarrow> bool" where
  "is_e c \<longleftrightarrow> c = CHR ''e'' \<or> c = CHR ''E''"

definition floatnumber_syntax :: "string \<Rightarrow> bool" where
  "floatnumber_syntax t =
     (if \<exists>c \<in> set t. is_e c
      then number_syntax (takeWhile (\<lambda>c. \<not> is_e c) t) \<and>
           digitpart (snd (unsign (tl (dropWhile (\<lambda>c. \<not> is_e c) t))))
      else number_syntax t)"

definition float_syntax :: "string \<Rightarrow> bool" where
  "float_syntax s =
     (let body = snd (unsign (number_text s))
      in lower body \<in> set [''inf'', ''infinity'', ''nan''] \<or> floatnumber_syntax body)"

text \<open>
  The value of a float literal (the binary64 number nearest to it) and the text \<open>str\<close>
  gives for a float are the arithmetic of the Python runtime, not of this program. They
  are parameters: \<open>'f\<close> is the type of floats, \<open>float_value\<close> the value \<open>float(s)\<close> returns
  for an accepted literal, \<open>float_str\<close> the result of \<open>str(x)\<close>.
\<close>

record 'f float_ops =
  float_value :: "string \<Rightarrow> 'f"
  float_str :: "'f \<Rightarrow> string"

definition py_float :: "'f float_ops \<Rightarrow> string \<Rightarrow> error + 'f" where
  "py_float ops s = (if float_syntax s then Inr (float_value ops s) else Inl ValueError)"

subsection \<open>Text of a value\<close>

text \<open>\<open>str(n)\<close> for an integer: decimal digits, a leading minus sign below zero.\<close>

definition digit_char :: "nat \<Rightarrow> char" where
  "digit_char d = ''0123456789'' ! d"

fun str_nat :: "nat \<Rightarrow> string" where
  "str_nat n = (if n < 10 then [digit_char n] else str_nat (n div 10) @ [digit_char (n mod 10)])"

declare str_nat.simps [simp del]

definition str_int :: "int \<Rightarrow> string" where
  "str_int i = (if i < 0 then CHR ''-'' # str_nat (nat (- i)) else str_nat (nat i))"

text \<open>\<open>repr(s)\<close> for a string and \<open>str(xs)\<close> for a list of strings, which is what an
  f-string writes for a list.\<close>

definition printable :: "char \<Rightarrow> bool" where
  "printable c \<longleftrightarrow>
     (let n = (of_char c :: nat) in \<not> (n < 32 \<or> (127 \<le> n \<and> n \<le> 160) \<or> n = 173))"

definition hex_digit :: "nat \<Rightarrow> char" where
  "hex_digit k = ''0123456789abcdef'' ! (k mod 16)"

definition repr_char :: "char \<Rightarrow> char \<Rightarrow> string" where
  "repr_char q c =
     (if c = q \<or> c = CHR 0x5C then [CHR 0x5C, c]
      else if c = CHR 0x09 then [CHR 0x5C, CHR ''t'']
      else if c = LF then [CHR 0x5C, CHR ''n'']
      else if c = CR then [CHR 0x5C, CHR ''r'']
      else if \<not> printable c
        then [CHR 0x5C, CHR ''x'', hex_digit (of_char c div 16), hex_digit (of_char c)]
      else [c])"

definition repr_str :: "string \<Rightarrow> string" where
  "repr_str s =
     (let q = (if CHR 0x27 \<in> set s \<and> CHR 0x22 \<notin> set s then CHR 0x22 else CHR 0x27)
      in [q] @ concat (map (repr_char q) s) @ [q])"

fun join :: "string \<Rightarrow> string list \<Rightarrow> string" where
  "join sep [] = []"
| "join sep [x] = x"
| "join sep (x # y # xs) = x @ sep @ join sep (y # xs)"

definition str_list :: "string list \<Rightarrow> string" where
  "str_list xs = ''['' @ join '', '' (map repr_str xs) @ '']''"

section \<open>The configuration document\<close>

text \<open>
  \<open>ConfigParser.parse\<close> returns a \<open>dict\<close> and \<open>ConfigParser.save\<close> takes one. Its values
  are booleans, integers, floats and strings, and under the key \<open>disks\<close> a list of
  strings. A \<open>dict\<close> keeps its keys in insertion order and assigning to a key that is
  present keeps the key's place, which is \<open>AList.update\<close> on an association list.
\<close>

datatype 'f pyval =
    VBool bool
  | VInt int
  | VFloat 'f
  | VStr string
  | VList "string list"

type_synonym 'f config = "(string \<times> 'f pyval) list"

text \<open>\<open>str(value)\<close>, as an f-string formats a value.\<close>

fun py_str :: "'f float_ops \<Rightarrow> 'f pyval \<Rightarrow> string" where
  "py_str ops (VBool b) = (if b then ''True'' else ''False'')"
| "py_str ops (VInt i) = str_int i"
| "py_str ops (VFloat x) = float_str ops x"
| "py_str ops (VStr s) = s"
| "py_str ops (VList xs) = str_list xs"

section \<open>Files\<close>

text \<open>
  A path names a text file with its content, or something else that exists but does not
  open as a file (a directory, say), or nothing. \<open>refuses_write\<close> tells the paths that
  \<open>open(path, 'w')\<close> rejects: no permission, no parent directory, a full disk.
\<close>

datatype node = File string | Other

record filesystem =
  nodes :: "string \<Rightarrow> node option"
  refuses_write :: "string \<Rightarrow> bool"

definition path_exists :: "filesystem \<Rightarrow> string \<Rightarrow> bool" where
  "path_exists fs p \<longleftrightarrow> nodes fs p \<noteq> None"

definition open_read :: "filesystem \<Rightarrow> string \<Rightarrow> error + string" where
  "open_read fs p = (case nodes fs p of Some (File txt) \<Rightarrow> Inr txt | _ \<Rightarrow> Inl OSError)"

text \<open>\<open>open(path, 'w')\<close> leaves an empty file when it succeeds.\<close>

definition open_write :: "filesystem \<Rightarrow> string \<Rightarrow> error + filesystem" where
  "open_write fs p =
     (if refuses_write fs p \<or> nodes fs p = Some Other then Inl OSError
      else Inr (fs\<lparr>nodes := (nodes fs)(p \<mapsto> File [])\<rparr>))"

definition set_content :: "filesystem \<Rightarrow> string \<Rightarrow> string \<Rightarrow> filesystem" where
  "set_content fs p txt = fs\<lparr>nodes := (nodes fs)(p \<mapsto> File txt)\<rparr>"

text \<open>Reading in text mode: \<open>CR LF\<close> and a lone \<open>CR\<close> arrive as \<open>LF\<close>, and iterating over the
  file yields the lines with their \<open>LF\<close>, the last one as it is when the text does not
  end in a line break.\<close>

fun translate_newlines :: "string \<Rightarrow> string" where
  "translate_newlines [] = []"
| "translate_newlines [c] = [if c = CR then LF else c]"
| "translate_newlines (c # d # cs) =
     (if c = CR
      then LF # (if d = LF then translate_newlines cs else translate_newlines (d # cs))
      else c # translate_newlines (d # cs))"

fun readlines :: "string \<Rightarrow> string list" where
  "readlines [] = []"
| "readlines (c # cs) =
     (if c = LF then [LF] # readlines cs
      else (case readlines cs of [] \<Rightarrow> [[c]] | l # ls \<Rightarrow> (c # l) # ls))"

definition file_lines :: "string \<Rightarrow> string list" where
  "file_lines txt = readlines (translate_newlines txt)"

section \<open>ConfigParser.parse\<close>

text \<open>The conversion of a value that does not belong to a \<open>disk\<close> line: the chain of
  \<open>if\<close>/\<open>elif\<close>/\<open>else\<close> with its \<open>try\<close>, which catches the \<open>ValueError\<close> of \<open>float\<close> alone.\<close>

definition convert :: "'f float_ops \<Rightarrow> string \<Rightarrow> error + 'f pyval" where
  "convert ops value =
     (if lower value = ''true'' then Inr (VBool True)
      else if lower value = ''false'' then Inr (VBool False)
      else if isdigit value then
        (case py_int value of Inl e \<Rightarrow> Inl e | Inr n \<Rightarrow> Inr (VInt n))
      else
        (case py_float ops value of
           Inr x \<Rightarrow> Inr (VFloat x)
         | Inl ValueError \<Rightarrow> Inr (VStr value)
         | Inl e \<Rightarrow> Inl e))"

text \<open>The key and the value of a stripped, non-empty line.\<close>

definition line_key :: "string \<Rightarrow> string" where
  "line_key line = split_space1 line ! 0"

definition line_value :: "string \<Rightarrow> string" where
  "line_value line =
     (let parts = split_space1 line in if length parts > 1 then parts ! 1 else [])"

text \<open>The state of the loop is the dictionary \<open>config\<close> and the list \<open>disks\<close>.\<close>

type_synonym 'f parse_state = "'f config \<times> string list"

definition parse_line :: "'f float_ops \<Rightarrow> string \<Rightarrow> 'f parse_state \<Rightarrow> error + 'f parse_state" where
  "parse_line ops raw st =
     (let line = strip raw
      in if line = [] then Inr st
         else if line_key line = ''disk'' then Inr (fst st, snd st @ [line_value line])
         else (case convert ops (line_value line) of
                 Inl e \<Rightarrow> Inl e
               | Inr v \<Rightarrow> Inr (AList.update (line_key line) v (fst st), snd st)))"

fun parse_lines :: "'f float_ops \<Rightarrow> string list \<Rightarrow> 'f parse_state \<Rightarrow> error + 'f parse_state" where
  "parse_lines ops [] st = Inr st"
| "parse_lines ops (l # ls) st =
     (case parse_line ops l st of Inl e \<Rightarrow> Inl e | Inr st' \<Rightarrow> parse_lines ops ls st')"

definition parse_text :: "'f float_ops \<Rightarrow> string \<Rightarrow> error + 'f config" where
  "parse_text ops txt =
     (case parse_lines ops (file_lines txt) ([], []) of
        Inl e \<Rightarrow> Inl e
      | Inr (config, disks) \<Rightarrow> Inr (AList.update ''disks'' (VList disks) config))"

definition parse :: "'f float_ops \<Rightarrow> filesystem \<Rightarrow> string \<Rightarrow> error + 'f config" where
  "parse ops fs filepath =
     (if \<not> path_exists fs filepath then Inr []
      else (case open_read fs filepath of
              Inl e \<Rightarrow> Inl e
            | Inr txt \<Rightarrow> parse_text ops txt))"

section \<open>ConfigParser.save\<close>

text \<open>\<open>config.get('disks', [])\<close> as the \<open>for\<close> loop takes it: the elements of a list, the
  characters of a string, and a \<open>TypeError\<close> for a value that cannot be iterated.\<close>

definition iter_disks :: "'f config \<Rightarrow> error + string list" where
  "iter_disks config =
     (case map_of config ''disks'' of
        None \<Rightarrow> Inr []
      | Some (VList xs) \<Rightarrow> Inr xs
      | Some (VStr s) \<Rightarrow> Inr (map (\<lambda>c. [c]) s)
      | Some _ \<Rightarrow> Inl TypeError)"

text \<open>The two loops; \<open>f\<close> is the text written to the file so far.\<close>

fun write_disks :: "string list \<Rightarrow> string \<Rightarrow> string" where
  "write_disks [] f = f"
| "write_disks (disk # rest) f = write_disks rest (f @ ''disk '' @ disk @ [LF])"

definition render :: "'f float_ops \<Rightarrow> 'f pyval \<Rightarrow> string" where
  "render ops value =
     py_str ops (case value of VBool b \<Rightarrow> VStr (if b then ''true'' else ''false'') | _ \<Rightarrow> value)"

fun write_settings :: "'f float_ops \<Rightarrow> 'f config \<Rightarrow> string \<Rightarrow> string" where
  "write_settings ops [] f = f"
| "write_settings ops ((key, value) # rest) f =
     (if key = ''disks'' then write_settings ops rest f
      else write_settings ops rest (f @ key @ [SP] @ render ops value @ [LF]))"

definition save_text :: "'f float_ops \<Rightarrow> 'f config \<Rightarrow> error + string" where
  "save_text ops config =
     (case iter_disks config of
        Inl e \<Rightarrow> Inl e
      | Inr disks \<Rightarrow> Inr (write_settings ops config (write_disks disks [])))"

text \<open>\<open>save\<close> returns nothing; the model returns the error raised, if any, the files after
  the call and the dictionary after the call. A \<open>TypeError\<close> comes from the first loop
  before anything is written, so it leaves the file empty.\<close>

definition save ::
  "'f float_ops \<Rightarrow> filesystem \<Rightarrow> string \<Rightarrow> 'f config \<Rightarrow> error option \<times> filesystem \<times> 'f config" where
  "save ops fs filepath config =
     (case open_write fs filepath of
        Inl e \<Rightarrow> (Some e, fs, config)
      | Inr fs' \<Rightarrow>
          (case save_text ops config of
             Inl e \<Rightarrow> (Some e, fs', config)
           | Inr txt \<Rightarrow> (None, set_content fs' filepath txt, config)))"

section \<open>What the specification speaks of\<close>

text \<open>The lines of a file that \<open>parse\<close> does not skip, stripped, and the values of its
  \<open>disk\<close> lines in file order.\<close>

definition nonblank_lines :: "string \<Rightarrow> string list" where
  "nonblank_lines txt = filter (\<lambda>l. l \<noteq> []) (map strip (file_lines txt))"

definition disk_values :: "string \<Rightarrow> string list" where
  "disk_values txt = map line_value (filter (\<lambda>l. line_key l = ''disk'') (nonblank_lines txt))"

text \<open>The lines of a file that carry the key \<open>k\<close>.\<close>

definition lines_with_key :: "string \<Rightarrow> string \<Rightarrow> string list" where
  "lines_with_key k txt = filter (\<lambda>l. line_key l = k) (nonblank_lines txt)"

text \<open>The split as the specification words it: the key is the text before the first run
  of whitespace, the value the rest of the line after that run.\<close>

definition whitespace_run_split :: "string \<Rightarrow> string \<times> string" where
  "whitespace_run_split line =
     (takeWhile (\<lambda>c. \<not> isspace c) line,
      dropWhile isspace (dropWhile (\<lambda>c. \<not> isspace c) line))"

text \<open>The entries of a document other than the disk sequence, in iteration order.\<close>

definition scalars :: "'f config \<Rightarrow> 'f config" where
  "scalars config = filter (\<lambda>(key, value). key \<noteq> ''disks'') config"

text \<open>The text of a value and the lines of the written file as the specification gives
  them: \<open>true\<close>/\<open>false\<close> for a boolean, the natural text for everything else.\<close>

fun value_text :: "'f float_ops \<Rightarrow> 'f pyval \<Rightarrow> string" where
  "value_text ops (VBool b) = (if b then ''true'' else ''false'')"
| "value_text ops (VInt i) = str_int i"
| "value_text ops (VFloat x) = float_str ops x"
| "value_text ops (VStr s) = s"
| "value_text ops (VList xs) = str_list xs"

definition disk_line :: "string \<Rightarrow> string" where
  "disk_line disk = ''disk '' @ disk @ [LF]"

definition setting_line :: "'f float_ops \<Rightarrow> string \<times> 'f pyval \<Rightarrow> string" where
  "setting_line ops entry = fst entry @ [SP] @ value_text ops (snd entry) @ [LF]"

text \<open>The line of a scalar entry without its line break.\<close>

definition setting_text :: "'f float_ops \<Rightarrow> string \<times> 'f pyval \<Rightarrow> string" where
  "setting_text ops e = fst e @ [SP] @ value_text ops (snd e)"

definition written_text :: "'f float_ops \<Rightarrow> string list \<Rightarrow> 'f config \<Rightarrow> string" where
  "written_text ops disks config =
     concat (map disk_line disks) @ concat (map (setting_line ops) (scalars config))"

subsection \<open>Texts that survive a line of the file\<close>

text \<open>A text without a line break; a disk entry that a line gives back: no line break in
  it and no whitespace at its end.\<close>

definition one_line :: "string \<Rightarrow> bool" where
  "one_line s \<longleftrightarrow> LF \<notin> set s \<and> CR \<notin> set s"

definition disk_ok :: "string \<Rightarrow> bool" where
  "disk_ok disk \<longleftrightarrow> one_line disk \<and> (disk = [] \<or> \<not> isspace (last disk))"

text \<open>A scalar entry whose written line \<open>parse\<close> reads as a scalar line or skips: the line
  holds no line break, its key is not \<open>disk\<close>, and its value converts.\<close>

definition scalar_line_ok :: "'f float_ops \<Rightarrow> string \<times> 'f pyval \<Rightarrow> bool" where
  "scalar_line_ok ops entry \<longleftrightarrow>
     (let l = fst entry @ [SP] @ value_text ops (snd entry)
      in one_line l \<and>
         (strip l = [] \<or>
          (line_key (strip l) \<noteq> ''disk'' \<and>
           (case convert ops (line_value (strip l)) of Inl e \<Rightarrow> False | Inr v \<Rightarrow> True))))"

text \<open>What Python promises of \<open>str\<close> on a float \<open>x\<close>: the text reads back as \<open>x\<close>, and it is
  made of digits, a point, an exponent mark and signs, or is \<open>inf\<close>, \<open>-inf\<close> or \<open>nan\<close>; it is
  never a bare run of digits.\<close>

definition float_text_shape :: "string \<Rightarrow> bool" where
  "float_text_shape s \<longleftrightarrow>
     s \<noteq> [] \<and> list_all (\<lambda>c. c \<in> set ''0123456789.e+-infa'') s \<and> \<not> list_all ascii_digit s"

definition float_ok :: "'f float_ops \<Rightarrow> 'f \<Rightarrow> bool" where
  "float_ok ops x \<longleftrightarrow>
     py_float ops (float_str ops x) = Inr x \<and> float_text_shape (float_str ops x)"

definition float_entry_ok :: "'f float_ops \<Rightarrow> string \<times> 'f pyval \<Rightarrow> bool" where
  "float_entry_ok ops entry \<longleftrightarrow> (case snd entry of VFloat x \<Rightarrow> float_ok ops x | _ \<Rightarrow> True)"

definition floats_ok :: "'f float_ops \<Rightarrow> 'f config \<Rightarrow> bool" where
  "floats_ok ops config \<longleftrightarrow> list_all (float_entry_ok ops) config"

text \<open>A scalar entry that its written line gives back: the key starts the line, holds no
  space and is not \<open>disk\<close>, the line ends in something else than whitespace once the value
  is written, and the text of the value converts to the value.\<close>

definition entry_ok :: "'f float_ops \<Rightarrow> string \<times> 'f pyval \<Rightarrow> bool" where
  "entry_ok ops entry \<longleftrightarrow>
     (let k = fst entry; s = value_text ops (snd entry)
      in k \<noteq> [] \<and> \<not> isspace (hd k) \<and> SP \<notin> set k \<and> one_line k \<and> k \<noteq> ''disk'' \<and>
         one_line s \<and> \<not> isspace (last (k @ s)) \<and> convert ops s = Inr (snd entry))"

section \<open>Examples\<close>

text \<open>A float library: floats kept as the literal that denotes them, without the
  whitespace around it. The examples use it on literals that \<open>str\<close> gives back unchanged,
  such as \<open>1.5\<close>.\<close>

definition literal_floats :: "string float_ops" where
  "literal_floats = \<lparr>float_value = number_text, float_str = (\<lambda>x. x)\<rparr>"

text \<open>No file at all; no file and no path that opens for writing; a document.\<close>

definition no_files :: filesystem where
  "no_files = \<lparr>nodes = (\<lambda>p. None), refuses_write = (\<lambda>p. False)\<rparr>"

definition refusing_files :: filesystem where
  "refusing_files = \<lparr>nodes = (\<lambda>p. None), refuses_write = (\<lambda>p. True)\<rparr>"

definition sample_config :: "string config" where
  "sample_config =
     [(''disks'', VList [''/mac/boot.img'', ''/mac/My Files.iso'']),
      (''jit'', VBool True),
      (''ramsize'', VInt 128),
      (''scale'', VFloat ''1.5''),
      (''dsp'', VStr ''/dev/dsp'')]"

text \<open>A file whose one line gives \<open>ramsize\<close> the value superscript two.\<close>

definition superscript_files :: filesystem where
  "superscript_files =
     \<lparr>nodes = (\<lambda>p. if p = ''prefs'' then Some (File (''ramsize '' @ [CHR 0xB2, LF])) else None),
      refuses_write = (\<lambda>p. False)\<rparr>"

text \<open>A file with two disk lines, a key given twice and a line whose key is \<open>disks\<close>, and the
  document \<open>parse\<close> returns for it.\<close>

definition sample_text :: string where
  "sample_text =
     ''disk /mac/boot.img'' @ [LF] @ ''jit TRUE'' @ [LF] @ ''ramsize 128'' @ [LF] @
     ''disk /mac/My Files.iso'' @ [LF] @ ''scale 1.5'' @ [LF] @ ''jit false'' @ [LF] @
     ''disks none'' @ [LF] @ ''dsp /dev/dsp'' @ [LF]"

definition sample_parsed :: "string config" where
  "sample_parsed =
     [(''jit'', VBool False),
      (''ramsize'', VInt 128),
      (''scale'', VFloat ''1.5''),
      (''disks'', VList [''/mac/boot.img'', ''/mac/My Files.iso'']),
      (''dsp'', VStr ''/dev/dsp'')]"

definition sample_files :: filesystem where
  "sample_files =
     \<lparr>nodes = (\<lambda>p. if p = ''prefs'' then Some (File sample_text) else None),
      refuses_write = (\<lambda>p. False)\<rparr>"

text \<open>A document whose disks the user has put in the order C, A, B; one whose disk entry
  ends in a space; one with a scalar entry under the key \<open>disk\<close>; a file whose two lines
  both have the key \<open>disks\<close>.\<close>

definition reordered_config :: "string config" where
  "reordered_config =
     [(''disks'', VList [''/mac/C.img'', ''/mac/A.img'', ''/mac/B.img'']),
      (''jit'', VBool True),
      (''extfs'', VStr ''/Users/me/My Files'')]"

definition trailing_space_config :: "string config" where
  "trailing_space_config = [(''disks'', VList [''/mac/boot.img ''])]"

definition disk_key_config :: "string config" where
  "disk_key_config = [(''disks'', VList [''/mac/A.img'']), (''disk'', VStr ''/mac/B.img'')]"

definition disks_twice_files :: filesystem where
  "disks_twice_files =
     \<lparr>nodes = (\<lambda>p. if p = ''prefs''
                     then Some (File (''disks a'' @ [LF] @ ''disks b'' @ [LF])) else None),
      refuses_write = (\<lambda>p. False)\<rparr>"

section \<open>Stripping and reading lines\<close>

lemma isspace_LF [simp]: "isspace LF" by (simp add: isspace_def)
lemma isspace_SP [simp]: "isspace SP" by (simp add: isspace_def)
lemma isspace_CR [simp]: "isspace CR" by (simp add: isspace_def)

lemma rstrip_Nil [simp]: "rstrip [] = []" by (simp add: rstrip_def)

lemma rstrip_snoc: "rstrip (s @ [c]) = (if isspace c then rstrip s else s @ [c])"
  by (simp add: rstrip_def)

lemma set_rstrip: "set (rstrip s) \<subseteq> set s"
  unfolding rstrip_def using set_dropWhileD by fastforce

lemma set_lstrip: "set (lstrip s) \<subseteq> set s"
  unfolding lstrip_def using set_dropWhileD by fastforce

lemma set_strip: "set (strip s) \<subseteq> set s"
  unfolding strip_def using set_rstrip set_lstrip by blast

lemma rstrip_last: "rstrip s \<noteq> [] \<Longrightarrow> \<not> isspace (last (rstrip s))"
proof (induction s rule: rev_induct)
  case Nil then show ?case by simp
next
  case (snoc c s) then show ?case by (simp add: rstrip_snoc split: if_splits)
qed

lemma rstrip_prefix: "\<exists>w. s = rstrip s @ w \<and> list_all isspace w"
proof (induction s rule: rev_induct)
  case Nil then show ?case by simp
next
  case (snoc c s)
  then obtain w where "s = rstrip s @ w" "list_all isspace w" by blast
  then show ?case
    by (cases "isspace c") (auto simp: rstrip_snoc intro: exI[of _ "w @ [c]"])
qed

lemma rstrip_hd: "rstrip s \<noteq> [] \<Longrightarrow> hd (rstrip s) = hd s"
  using rstrip_prefix [of s] by (metis hd_append2)

lemma lstrip_hd: "lstrip s \<noteq> [] \<Longrightarrow> \<not> isspace (hd (lstrip s))"
  unfolding lstrip_def using hd_dropWhile by blast

lemma strip_hd: "strip s \<noteq> [] \<Longrightarrow> \<not> isspace (hd (strip s))"
  unfolding strip_def using rstrip_hd lstrip_hd by (metis rstrip_Nil)

lemma strip_last: "strip s \<noteq> [] \<Longrightarrow> \<not> isspace (last (strip s))"
  unfolding strip_def by (rule rstrip_last)

lemma rstrip_id: "s = [] \<or> \<not> isspace (last s) \<Longrightarrow> rstrip s = s"
  by (cases s rule: rev_cases) (auto simp: rstrip_snoc)

lemma lstrip_id: "s = [] \<or> \<not> isspace (hd s) \<Longrightarrow> lstrip s = s"
  by (cases s) (auto simp: lstrip_def)

lemma rstrip_append_spaces: "list_all isspace w \<Longrightarrow> rstrip (s @ w) = rstrip s"
proof (induction w rule: rev_induct)
  case Nil then show ?case by simp
next
  case (snoc c w)
  then show ?case by (simp add: rstrip_snoc flip: append_assoc)
qed

lemma lstrip_append: "s \<noteq> [] \<Longrightarrow> \<not> isspace (hd s) \<Longrightarrow> lstrip (s @ t) = s @ t"
  by (cases s) (auto simp: lstrip_def)

lemma strip_line:
  assumes "s \<noteq> []" "\<not> isspace (hd s)" "\<not> isspace (last s)" "list_all isspace w"
  shows "strip (s @ w) = s"
  using assms by (simp add: strip_def lstrip_append rstrip_append_spaces rstrip_id)

lemma butlast_dropWhile_subset: "set (butlast (dropWhile P s)) \<subseteq> set (butlast s)"
  by (induction s) (auto)

lemma rstrip_no_LF: "LF \<notin> set (butlast s) \<Longrightarrow> LF \<notin> set (rstrip s)"
proof (cases s rule: rev_cases)
  case Nil then show ?thesis by simp
next
  case (snoc b c)
  assume "LF \<notin> set (butlast s)"
  with snoc have b: "LF \<notin> set b" by simp
  show ?thesis
  proof (cases "isspace c")
    case True
    with snoc b set_rstrip [of b] show ?thesis by (auto simp: rstrip_snoc)
  next
    case False
    then have "c \<noteq> LF" by auto
    with snoc b False show ?thesis by (simp add: rstrip_snoc)
  qed
qed

lemma strip_no_LF: "LF \<notin> set (butlast s) \<Longrightarrow> LF \<notin> set (strip s)"
  unfolding strip_def lstrip_def
  using butlast_dropWhile_subset [of isspace s] rstrip_no_LF by blast

subsection \<open>Lines of a file\<close>

lemma translate_no_CR: "CR \<notin> set (translate_newlines s)"
  by (induction s rule: translate_newlines.induct) auto

lemma translate_id: "CR \<notin> set s \<Longrightarrow> translate_newlines s = s"
  by (induction s rule: translate_newlines.induct) auto

lemma readlines_line: "LF \<notin> set l \<Longrightarrow> readlines (l @ LF # rest) = (l @ [LF]) # readlines rest"
  by (induction l) auto

lemma readlines_concat:
  "\<forall>l \<in> set ls. LF \<notin> set l \<Longrightarrow> readlines (concat (map (\<lambda>l. l @ [LF]) ls)) = map (\<lambda>l. l @ [LF]) ls"
  by (induction ls) (auto simp: readlines_line)

lemma readlines_shape: "l \<in> set (readlines s) \<Longrightarrow> LF \<notin> set (butlast l) \<and> set l \<subseteq> set s"
proof (induction s arbitrary: l)
  case Nil then show ?case by simp
next
  case (Cons c s)
  show ?case
  proof (cases "c = LF")
    case True
    with Cons show ?thesis by auto
  next
    case False
    show ?thesis
    proof (cases "readlines s")
      case Nil
      with Cons.prems False show ?thesis by auto
    next
      case (Cons m ms)
      with Cons.prems False have "l = c # m \<or> l \<in> set ms" by auto
      then show ?thesis
      proof
        assume l: "l = c # m"
        have "m \<in> set (readlines s)" using Cons by simp
        from Cons.IH [OF this] l False show ?thesis by (cases m) auto
      next
        assume "l \<in> set ms"
        then have "l \<in> set (readlines s)" using Cons by simp
        from Cons.IH [OF this] show ?thesis by auto
      qed
    qed
  qed
qed

lemma file_lines_shape:
  assumes "l \<in> set (file_lines txt)"
  shows "LF \<notin> set (butlast l)" and "CR \<notin> set l"
  using readlines_shape [of l "translate_newlines txt"] assms translate_no_CR [of "txt"]
  by (auto simp: file_lines_def)

lemma strip_file_line:
  assumes "l \<in> set (file_lines txt)"
  shows "one_line (strip l)"
  using file_lines_shape [OF assms] strip_no_LF [of l] set_strip [of l]
  by (auto simp: one_line_def)

subsection \<open>Key and value of a line\<close>

lemma line_no_space: "SP \<notin> set s \<Longrightarrow> line_key s = s \<and> line_value s = []"
  by (simp add: line_key_def line_value_def split_space1_def)

lemma line_with_space:
  assumes "SP \<in> set s"
  shows "s = line_key s @ SP # line_value s \<and> SP \<notin> set (line_key s)"
proof -
  let ?d = "dropWhile (\<lambda>c. c \<noteq> SP) s"
  from assms have ne: "?d \<noteq> []" by auto
  then have "hd ?d = SP" using hd_dropWhile [of "\<lambda>c. c \<noteq> SP" s] by simp
  with ne have d: "?d = SP # tl ?d" by (cases ?d) auto
  have "s = takeWhile (\<lambda>c. c \<noteq> SP) s @ ?d" by simp
  with d have "s = takeWhile (\<lambda>c. c \<noteq> SP) s @ SP # tl ?d" by simp
  moreover have "SP \<notin> set (takeWhile (\<lambda>c. c \<noteq> SP) s)"
    using set_takeWhileD by fastforce
  ultimately show ?thesis
    using assms by (simp add: line_key_def line_value_def split_space1_def)
qed

lemma line_join:
  assumes "SP \<notin> set k"
  shows "line_key (k @ SP # v) = k" and "line_value (k @ SP # v) = v"
proof -
  have t: "takeWhile (\<lambda>c. c \<noteq> SP) (k @ SP # v) = k"
    using assms by (induction k) auto
  have d: "dropWhile (\<lambda>c. c \<noteq> SP) (k @ SP # v) = SP # v"
    using assms by (induction k) auto
  show "line_key (k @ SP # v) = k" using t by (simp add: line_key_def split_space1_def)
  show "line_value (k @ SP # v) = v" using d by (simp add: line_value_def split_space1_def)
qed

section \<open>What save writes\<close>

lemma render_value_text: "render ops v = value_text ops v"
  by (cases v) (simp_all add: render_def)

lemma write_disks_append: "write_disks ds f = f @ concat (map disk_line ds)"
  by (induction ds arbitrary: f) (simp_all add: disk_line_def)

lemma write_settings_append:
  "write_settings ops d f = f @ concat (map (setting_line ops) (scalars d))"
  by (induction d arbitrary: f)
     (auto simp: scalars_def setting_line_def render_value_text)

lemma save_text_written:
  "iter_disks d = Inr ds \<Longrightarrow> save_text ops d = Inr (written_text ops ds d)"
  by (simp add: save_text_def written_text_def write_disks_append write_settings_append)

lemma set_content_open_write:
  "open_write fs p = Inr fs' \<Longrightarrow> set_content fs' p t = set_content fs p t"
  by (auto simp: open_write_def set_content_def split: if_splits)

text \<open>
  Claim C6. When the file opens for writing, \<open>save\<close> raises nothing and leaves in it, first,
  one line \<open>disk <value>\<close> for every entry of the disk sequence, in sequence order, and
  then one line \<open><key> <value>\<close> for every other entry of the document, in the document's
  iteration order. The value is written by \<open>value_text\<close>: \<open>true\<close> or \<open>false\<close> for a boolean,
  the decimal digits of an integer, the text \<open>str\<close> gives for a float, a string as it is.
\<close>

theorem save_writes_disks_then_settings:
  assumes "open_write fs filepath = Inr fs'" and "iter_disks config = Inr disks"
  shows "save ops fs filepath config =
           (None,
            set_content fs filepath
              (concat (map disk_line disks) @ concat (map (setting_line ops) (scalars config))),
            config)"
  using assms save_text_written [OF assms(2), of ops] set_content_open_write [OF assms(1)]
  by (simp add: save_def written_text_def)

theorem save_writes_disks_then_settings_witness:
  "open_write no_files ''prefs'' = Inr (set_content no_files ''prefs'' []) \<and>
   iter_disks sample_config = Inr [''/mac/boot.img'', ''/mac/My Files.iso''] \<and>
   save literal_floats no_files ''prefs'' sample_config =
     (None,
      set_content no_files ''prefs''
        (''disk /mac/boot.img'' @ [LF] @ ''disk /mac/My Files.iso'' @ [LF] @
         ''jit true'' @ [LF] @ ''ramsize 128'' @ [LF] @ ''scale 1.5'' @ [LF] @
         ''dsp /dev/dsp'' @ [LF]),
      sample_config)"
proof -
  have a: "open_write no_files ''prefs'' = Inr (set_content no_files ''prefs'' [])"
    by (simp add: open_write_def no_files_def set_content_def)
  have b: "iter_disks sample_config = Inr [''/mac/boot.img'', ''/mac/My Files.iso'']"
    by (simp add: iter_disks_def sample_config_def)
  show ?thesis
    using a b save_writes_disks_then_settings [OF a b, of literal_floats]
    by (simp add: sample_config_def scalars_def disk_line_def setting_line_def
        literal_floats_def str_int_def str_nat.simps digit_char_def)
qed

section \<open>How parse splits a line\<close>

text \<open>
  The split is not at a run of whitespace. A tab does not split: the line
  \<open>ramsize<TAB>128\<close> has the whole line for its key and an empty value. A second space is
  not skipped: the line \<open>jit\<close>, two spaces, \<open>true\<close> has the value \<open>true\<close> with a space before it.
\<close>

theorem split_whitespace_run_counterexample:
  "line_key (strip (''ramsize'' @ [CHR 0x09] @ ''128'' @ [LF])) = ''ramsize'' @ [CHR 0x09] @ ''128'' \<and>
   line_value (strip (''ramsize'' @ [CHR 0x09] @ ''128'' @ [LF])) = [] \<and>
   whitespace_run_split (strip (''ramsize'' @ [CHR 0x09] @ ''128'' @ [LF])) = (''ramsize'', ''128'') \<and>
   line_value (strip (''jit  true'' @ [LF])) = '' true'' \<and>
   whitespace_run_split (strip (''jit  true'' @ [LF])) = (''jit'', ''true'')"
  by (simp add: strip_def lstrip_def rstrip_def isspace_def line_key_def line_value_def
      split_space1_def whitespace_run_split_def)

text \<open>
  Claim C3, amended. A line that is not blank is split, once stripped, at its first space
  character: the key is the text before that space and the value all the text after it,
  spaces included. A line without a space is its own key and has the empty value.
\<close>

theorem split_at_first_space:
  assumes "strip raw \<noteq> []"
  shows "(SP \<notin> set (strip raw) \<longrightarrow>
            line_key (strip raw) = strip raw \<and> line_value (strip raw) = []) \<and>
         (SP \<in> set (strip raw) \<longrightarrow>
            strip raw = line_key (strip raw) @ SP # line_value (strip raw) \<and>
            SP \<notin> set (line_key (strip raw)))"
  using line_no_space [of "strip raw"] line_with_space [of "strip raw"] by blast

theorem split_at_first_space_witness:
  "strip (''extfs /Users/me/My Files'' @ [LF]) \<noteq> [] \<and>
   SP \<in> set (strip (''extfs /Users/me/My Files'' @ [LF])) \<and>
   line_key (strip (''extfs /Users/me/My Files'' @ [LF])) = ''extfs'' \<and>
   line_value (strip (''extfs /Users/me/My Files'' @ [LF])) = ''/Users/me/My Files''"
proof -
  have s: "strip (''extfs /Users/me/My Files'' @ [LF]) = ''extfs /Users/me/My Files''"
    by (simp add: strip_def lstrip_def rstrip_def isspace_def)
  have k: "line_key ''extfs /Users/me/My Files'' = ''extfs''"
    by (simp add: line_key_def split_space1_def)
  show ?thesis
    using split_at_first_space [of "''extfs /Users/me/My Files'' @ [LF]"] s k
    by simp
qed

section \<open>The loop of parse\<close>

lemma parse_line_cases:
  assumes "parse_line ops raw st = Inr st'"
  obtains (blank) "strip raw = []" "st' = st"
  | (disk) "strip raw \<noteq> []" "line_key (strip raw) = ''disk''"
      "st' = (fst st, snd st @ [line_value (strip raw)])"
  | (scalar) v where "strip raw \<noteq> []" "line_key (strip raw) \<noteq> ''disk''"
      "convert ops (line_value (strip raw)) = Inr v"
      "st' = (AList.update (line_key (strip raw)) v (fst st), snd st)"
  using assms unfolding parse_line_def Let_def
  by (auto split: if_splits sum.splits)

lemma parse_lines_append:
  "parse_lines ops (xs @ ys) st =
     (case parse_lines ops xs st of Inl e \<Rightarrow> Inl e | Inr st' \<Rightarrow> parse_lines ops ys st')"
  by (induction xs arbitrary: st) (auto split: sum.splits)

lemma parse_lines_disks:
  "parse_lines ops ls st = Inr st' \<Longrightarrow>
   snd st' = snd st @ map line_value
     (filter (\<lambda>l. line_key l = ''disk'') (filter (\<lambda>l. l \<noteq> []) (map strip ls)))"
proof (induction ls arbitrary: st)
  case Nil
  then show ?case by simp
next
  case (Cons raw ls)
  from Cons.prems obtain st1 where s1: "parse_line ops raw st = Inr st1"
    and rest: "parse_lines ops ls st1 = Inr st'"
    by (auto split: sum.splits)
  from Cons.IH [OF rest] have ih: "snd st' = snd st1 @ map line_value
     (filter (\<lambda>l. line_key l = ''disk'') (filter (\<lambda>l. l \<noteq> []) (map strip ls)))" .
  from s1 show ?case
    by (cases rule: parse_line_cases) (simp_all add: ih)
qed

lemma parse_lines_distinct:
  "parse_lines ops ls st = Inr st' \<Longrightarrow> distinct (map fst (fst st)) \<Longrightarrow>
   distinct (map fst (fst st'))"
proof (induction ls arbitrary: st)
  case Nil
  then show ?case by simp
next
  case (Cons raw ls)
  from Cons.prems obtain st1 where s1: "parse_line ops raw st = Inr st1"
    and rest: "parse_lines ops ls st1 = Inr st'"
    by (auto split: sum.splits)
  from s1 Cons.prems(2) have "distinct (map fst (fst st1))"
    by (cases rule: parse_line_cases) (simp_all add: distinct_update)
  with Cons.IH [OF rest] show ?case .
qed

lemma parse_text_cases:
  assumes "parse_text ops content = Inr d"
  obtains c disks where "parse_lines ops (file_lines content) ([], []) = Inr (c, disks)"
    and "d = AList.update ''disks'' (VList disks) c"
  using assms unfolding parse_text_def by (auto split: sum.splits prod.splits)

lemma parse_text_disks:
  assumes "parse_text ops content = Inr d"
  shows "map_of d ''disks'' = Some (VList (disk_values content))" and "distinct (map fst d)"
proof -
  from assms obtain c disks
    where p: "parse_lines ops (file_lines content) ([], []) = Inr (c, disks)"
      and d: "d = AList.update ''disks'' (VList disks) c"
    by (rule parse_text_cases)
  from parse_lines_disks [OF p] have "disks = disk_values content"
    by (simp add: disk_values_def nonblank_lines_def)
  with d show "map_of d ''disks'' = Some (VList (disk_values content))"
    by (simp add: update_conv')
  from parse_lines_distinct [OF p] d show "distinct (map fst d)"
    by (simp add: distinct_update)
qed

lemma parse_existing:
  "nodes fs filepath = Some (File content) \<Longrightarrow> parse ops fs filepath = parse_text ops content"
  by (simp add: parse_def path_exists_def open_read_def)

subsection \<open>The example file\<close>

lemma sample_parse_text: "parse_text literal_floats sample_text = Inr sample_parsed"
  by code_simp

lemma sample_floats_ok: "floats_ok literal_floats sample_parsed"
  by code_simp

lemma sample_disk_values: "disk_values sample_text = [''/mac/boot.img'', ''/mac/My Files.iso'']"
  by code_simp

lemma open_write_new:
  "\<not> refuses_write fs p \<Longrightarrow> nodes fs p \<noteq> Some Other \<Longrightarrow>
   open_write fs p = Inr (set_content fs p [])"
  by (simp add: open_write_def set_content_def)

section \<open>The disk sequence of a parsed file\<close>

text \<open>
  Claim C10. For a file that exists and that \<open>parse\<close> reads to its end, the returned document
  holds under the key \<open>disks\<close> exactly the list of the values of the file's \<open>disk\<close> lines, in
  file order, and holds no second entry under that key: whatever a line with the key
  \<open>disks\<close> has assigned is replaced by the list once the loop is over.
\<close>

theorem parse_disks_field:
  assumes "nodes fs filepath = Some (File content)" and "parse ops fs filepath = Inr d"
  shows "map_of d ''disks'' = Some (VList (disk_values content)) \<and> distinct (map fst d)"
  using assms parse_text_disks [of ops content d] by (simp add: parse_existing)

theorem parse_disks_field_witness:
  "nodes sample_files ''prefs'' = Some (File sample_text) \<and>
   parse literal_floats sample_files ''prefs'' = Inr sample_parsed \<and>
   lines_with_key ''disks'' sample_text = [''disks none''] \<and>
   map_of sample_parsed ''disks'' = Some (VList [''/mac/boot.img'', ''/mac/My Files.iso'']) \<and>
   distinct (map fst sample_parsed)"
proof -
  have a: "nodes sample_files ''prefs'' = Some (File sample_text)"
    by (simp add: sample_files_def)
  have b: "parse literal_floats sample_files ''prefs'' = Inr sample_parsed"
    by (simp add: parse_existing [OF a] sample_parse_text)
  have l: "lines_with_key ''disks'' sample_text = [''disks none'']" by code_simp
  from parse_disks_field [OF a b] sample_disk_values a b l show ?thesis by simp
qed

section \<open>A key given more than once\<close>

lemma parse_lines_key:
  assumes "parse_lines ops ls st = Inr st'" and "k \<noteq> ''disk''"
  defines "sel \<equiv> \<lambda>ls. filter (\<lambda>l. line_key l = k) (filter (\<lambda>l. l \<noteq> []) (map strip ls))"
  shows "(sel ls = [] \<longrightarrow> map_of (fst st') k = map_of (fst st) k) \<and>
         (sel ls \<noteq> [] \<longrightarrow>
            (\<exists>v. convert ops (line_value (last (sel ls))) = Inr v \<and> map_of (fst st') k = Some v))"
  using assms(1)
proof (induction ls arbitrary: st)
  case Nil
  then show ?case by (simp add: sel_def)
next
  case (Cons raw ls)
  from Cons.prems obtain st1 where s1: "parse_line ops raw st = Inr st1"
    and rest: "parse_lines ops ls st1 = Inr st'"
    by (auto split: sum.splits)
  note ih = Cons.IH [OF rest]
  from s1 show ?case
  proof (cases rule: parse_line_cases)
    case blank
    then have "sel (raw # ls) = sel ls" by (simp add: sel_def)
    with blank ih show ?thesis by simp
  next
    case disk
    with assms(2) have "sel (raw # ls) = sel ls" by (auto simp: sel_def)
    with disk ih show ?thesis by simp
  next
    case (scalar v)
    show ?thesis
    proof (cases "line_key (strip raw) = k")
      case False
      then have "sel (raw # ls) = sel ls" by (simp add: sel_def)
      with False scalar ih show ?thesis by (simp add: update_conv')
    next
      case True
      with scalar have e: "sel (raw # ls) = strip raw # sel ls" by (simp add: sel_def)
      show ?thesis
      proof (cases "sel ls = []")
        case True
        with e scalar ih \<open>line_key (strip raw) = k\<close> show ?thesis by (simp add: update_conv')
      next
        case False
        with e ih show ?thesis by simp
      qed
    qed
  qed
qed

text \<open>
  A line whose key is \<open>disks\<close> has a key other than \<open>disk\<close>, yet its value does not stay:
  after two such lines the document holds the disk sequence, here the empty one, under
  \<open>disks\<close>, and not the value \<open>b\<close> of the last of them.
\<close>

theorem disks_key_not_last_line_counterexample:
  "parse literal_floats disks_twice_files ''prefs'' = Inr [(''disks'', VList [])] \<and>
   lines_with_key ''disks'' (''disks a'' @ [LF] @ ''disks b'' @ [LF]) = [''disks a'', ''disks b''] \<and>
   convert literal_floats (line_value ''disks b'') = Inr (VStr ''b'')"
  by code_simp

text \<open>
  Claim C8, amended. When \<open>parse\<close> returns a document for a file in which one or more lines
  (so also two or more) have the same key, and the key is neither \<open>disk\<close> nor \<open>disks\<close>,
  the document gives that key the converted value of the last of these lines.
\<close>

theorem last_line_wins:
  assumes "nodes fs filepath = Some (File content)" and "parse ops fs filepath = Inr d"
    and "k \<noteq> ''disk''" and "k \<noteq> ''disks''"
    and "lines_with_key k content \<noteq> []"
  shows "\<exists>v. convert ops (line_value (last (lines_with_key k content))) = Inr v \<and>
             map_of d k = Some v"
proof -
  from assms(1,2) have pt: "parse_text ops content = Inr d"
    using parse_existing [of fs filepath content ops] by simp
  then obtain c disks
    where p: "parse_lines ops (file_lines content) ([], []) = Inr (c, disks)"
      and d: "d = AList.update ''disks'' (VList disks) c"
    by (rule parse_text_cases)
  from parse_lines_key [OF p assms(3)] assms(5)
  have "\<exists>v. convert ops (line_value (last (lines_with_key k content))) = Inr v \<and>
            map_of c k = Some v"
    by (simp add: lines_with_key_def nonblank_lines_def)
  with d assms(4) show ?thesis by (simp add: update_conv')
qed

theorem last_line_wins_witness:
  "nodes sample_files ''prefs'' = Some (File sample_text) \<and>
   parse literal_floats sample_files ''prefs'' = Inr sample_parsed \<and>
   ''jit'' \<noteq> ''disk'' \<and> ''jit'' \<noteq> ''disks'' \<and>
   lines_with_key ''jit'' sample_text = [''jit TRUE'', ''jit false''] \<and>
   convert literal_floats (line_value ''jit false'') = Inr (VBool False) \<and>
   map_of sample_parsed ''jit'' = Some (VBool False)"
proof -
  have a: "nodes sample_files ''prefs'' = Some (File sample_text)"
    by (simp add: sample_files_def)
  have b: "parse literal_floats sample_files ''prefs'' = Inr sample_parsed"
    by (simp add: parse_existing [OF a] sample_parse_text)
  have c: "''jit'' \<noteq> ''disk''" and d: "''jit'' \<noteq> ''disks''" by simp_all
  have l: "lines_with_key ''jit'' sample_text = [''jit TRUE'', ''jit false'']" by code_simp
  then have e: "lines_with_key ''jit'' sample_text \<noteq> []" by simp
  have v: "convert literal_floats (line_value ''jit false'') = Inr (VBool False)" by code_simp
  from last_line_wins [OF a b c d e] l v
  have "map_of sample_parsed ''jit'' = Some (VBool False)" by simp
  with a b c d l v show ?thesis by simp
qed

section \<open>Writing the disk sequence and reading it back\<close>

lemma strip_append_spaces: "list_all isspace w \<Longrightarrow> strip (s @ w) = strip s"
proof (cases "\<forall>x \<in> set s. isspace x")
  case True
  assume "list_all isspace w"
  with True have "lstrip (s @ w) = []" "lstrip s = []"
    by (auto simp: lstrip_def list_all_iff)
  then show ?thesis by (simp add: strip_def)
next
  case False
  assume w: "list_all isspace w"
  from False obtain x where "x \<in> set s" "\<not> isspace x" by blast
  then have "dropWhile isspace (s @ w) = dropWhile isspace s @ w"
    by (rule dropWhile_append1)
  with w show ?thesis
    by (simp add: strip_def lstrip_def rstrip_append_spaces)
qed

lemma parse_disk_line:
  assumes "disk_ok x"
  shows "parse_line ops (disk_line x) st = Inr (fst st, snd st @ [x])"
proof (cases "x = []")
  case True
  have "strip (''disk'' @ [SP, LF]) = ''disk''"
    by (rule strip_line) (simp_all add: isspace_def)
  then have "strip (disk_line x) = ''disk''" using True by (simp add: disk_line_def)
  moreover have "line_key ''disk'' = ''disk''" "line_value ''disk'' = []"
    by (simp_all add: line_key_def line_value_def split_space1_def)
  ultimately show ?thesis using True by (simp add: parse_line_def)
next
  case False
  with assms have l: "\<not> isspace (last x)" by (simp add: disk_ok_def)
  have "strip ((''disk'' @ SP # x) @ [LF]) = ''disk'' @ SP # x"
    using False l by (intro strip_line) (simp_all add: isspace_def)
  then have s: "strip (disk_line x) = ''disk'' @ SP # x" by (simp add: disk_line_def)
  have "line_key (''disk'' @ SP # x) = ''disk''" "line_value (''disk'' @ SP # x) = x"
    by (rule line_join, simp)+
  with s show ?thesis by (simp add: parse_line_def)
qed

lemma parse_disk_lines:
  "list_all disk_ok xs \<Longrightarrow>
   parse_lines ops (map disk_line xs) st = Inr (fst st, snd st @ xs)"
  by (induction xs arbitrary: st) (simp_all add: parse_disk_line)

lemma parse_scalar_line:
  assumes "scalar_line_ok ops e"
  shows "\<exists>c. parse_line ops (setting_line ops e) st = Inr (c, snd st)"
proof -
  let ?l = "fst e @ [SP] @ value_text ops (snd e)"
  have "strip (?l @ [LF]) = strip ?l" by (rule strip_append_spaces) simp
  then have s: "strip (setting_line ops e) = strip ?l" by (simp add: setting_line_def)
  show ?thesis
  proof (cases "strip ?l = []")
    case True
    with s show ?thesis by (cases st) (simp add: parse_line_def)
  next
    case False
    with assms obtain v where "line_key (strip ?l) \<noteq> ''disk''"
      "convert ops (line_value (strip ?l)) = Inr v"
      by (auto simp: scalar_line_ok_def Let_def split: sum.splits)
    with s False show ?thesis by (simp add: parse_line_def)
  qed
qed

lemma parse_scalar_lines:
  "list_all (scalar_line_ok ops) es \<Longrightarrow>
   \<exists>c. parse_lines ops (map (setting_line ops) es) st = Inr (c, snd st)"
proof (induction es arbitrary: st)
  case Nil
  then show ?case by (cases st) simp
next
  case (Cons e es)
  from Cons.prems have "scalar_line_ok ops e" by simp
  from parse_scalar_line [OF this]
  obtain c where c: "parse_line ops (setting_line ops e) st = Inr (c, snd st)"
    by blast
  from Cons.prems have "list_all (scalar_line_ok ops) es" by simp
  from Cons.IH [OF this, of "(c, snd st)"] c show ?case by simp
qed

subsection \<open>The lines of the written text\<close>

lemma one_line_disk_line: "disk_ok x \<Longrightarrow> one_line (''disk '' @ x)"
  by (simp add: disk_ok_def one_line_def)

lemma one_line_file_lines:
  assumes "\<forall>l \<in> set ls. one_line l"
  shows "file_lines (concat (map (\<lambda>l. l @ [LF]) ls)) = map (\<lambda>l. l @ [LF]) ls"
proof -
  from assms have "CR \<notin> set (concat (map (\<lambda>l. l @ [LF]) ls))"
    by (auto simp: one_line_def)
  then have "translate_newlines (concat (map (\<lambda>l. l @ [LF]) ls)) = concat (map (\<lambda>l. l @ [LF]) ls)"
    by (rule translate_id)
  moreover from assms have "\<forall>l \<in> set ls. LF \<notin> set l" by (simp add: one_line_def)
  ultimately show ?thesis by (simp add: file_lines_def readlines_concat)
qed

lemma written_text_lines:
  "written_text ops disks config =
     concat (map (\<lambda>l. l @ [LF])
       (map (\<lambda>x. ''disk '' @ x) disks @ map (setting_text ops) (scalars config)))"
proof -
  have "disk_line = (\<lambda>x. (''disk '' @ x) @ [LF])"
    by (rule ext) (simp add: disk_line_def)
  moreover have "setting_line ops = (\<lambda>e. setting_text ops e @ [LF])"
    by (rule ext) (simp add: setting_line_def setting_text_def)
  ultimately show ?thesis
    by (simp add: written_text_def comp_def)
qed

lemma file_lines_written:
  assumes "list_all disk_ok disks"
    and "\<forall>e \<in> set (scalars config). one_line (setting_text ops e)"
  shows "file_lines (written_text ops disks config) =
           map disk_line disks @ map (setting_line ops) (scalars config)"
proof -
  have "\<forall>l \<in> set (map (\<lambda>x. ''disk '' @ x) disks @ map (setting_text ops) (scalars config)).
          one_line l"
    using assms one_line_disk_line by (auto simp: list_all_iff)
  moreover have "disk_line = (\<lambda>x. (''disk '' @ x) @ [LF])"
    by (rule ext) (simp add: disk_line_def)
  moreover have "setting_line ops = (\<lambda>e. setting_text ops e @ [LF])"
    by (rule ext) (simp add: setting_line_def setting_text_def)
  ultimately show ?thesis
    using one_line_file_lines
      [of "map (\<lambda>x. ''disk '' @ x) disks @ map (setting_text ops) (scalars config)"]
    by (simp add: written_text_lines comp_def)
qed

lemma iter_disks_update: "iter_disks (AList.update ''disks'' (VList xs) c) = Inr xs"
  by (simp add: iter_disks_def update_conv')

lemma written_text_disks_back:
  assumes "list_all disk_ok disks" and "list_all (scalar_line_ok ops) (scalars config)"
  shows "\<exists>d. parse_text ops (written_text ops disks config) = Inr d \<and> iter_disks d = Inr disks"
proof -
  from assms(2) have "\<forall>e \<in> set (scalars config). one_line (setting_text ops e)"
    by (auto simp: list_all_iff scalar_line_ok_def setting_text_def Let_def)
  from file_lines_written [OF assms(1) this]
  have fl: "file_lines (written_text ops disks config) =
           map disk_line disks @ map (setting_line ops) (scalars config)" .
  have d: "parse_lines ops (map disk_line disks) ([], []) = Inr ([], disks)"
    using parse_disk_lines [OF assms(1), of ops "([], [])"] by simp
  from parse_scalar_lines [OF assms(2), of "([], disks)"]
  obtain c where "parse_lines ops (map (setting_line ops) (scalars config)) ([], disks) = Inr (c, disks)"
    by auto
  with d fl have "parse_text ops (written_text ops disks config) =
      Inr (AList.update ''disks'' (VList disks) c)"
    by (simp add: parse_text_def parse_lines_append)
  then show ?thesis by (simp add: iter_disks_update)
qed

lemma save_then_parse:
  assumes "open_write fs filepath = Inr fs'" and "iter_disks config = Inr disks"
  shows "save ops fs filepath config =
           (None, set_content fs filepath (written_text ops disks config), config)"
    and "parse ops (set_content fs filepath (written_text ops disks config)) filepath =
           parse_text ops (written_text ops disks config)"
proof -
  show "save ops fs filepath config =
           (None, set_content fs filepath (written_text ops disks config), config)"
    using assms save_text_written [OF assms(2), of ops] set_content_open_write [OF assms(1)]
    by (simp add: save_def)
  show "parse ops (set_content fs filepath (written_text ops disks config)) filepath =
           parse_text ops (written_text ops disks config)"
    by (rule parse_existing) (simp add: set_content_def)
qed

text \<open>
  Not every disk sequence comes back. A disk entry that ends in a space returns without
  the space, since \<open>parse\<close> strips every line; and a scalar entry under the key \<open>disk\<close> is
  read back as one more disk.
\<close>

theorem disk_sequence_lost_counterexample:
  "save literal_floats no_files ''prefs'' trailing_space_config =
     (None, set_content no_files ''prefs'' (''disk /mac/boot.img '' @ [LF]), trailing_space_config) \<and>
   parse literal_floats (set_content no_files ''prefs'' (''disk /mac/boot.img '' @ [LF])) ''prefs'' =
     Inr [(''disks'', VList [''/mac/boot.img''])] \<and>
   save literal_floats no_files ''prefs'' disk_key_config =
     (None, set_content no_files ''prefs''
        (''disk /mac/A.img'' @ [LF] @ ''disk /mac/B.img'' @ [LF]), disk_key_config) \<and>
   parse literal_floats
     (set_content no_files ''prefs'' (''disk /mac/A.img'' @ [LF] @ ''disk /mac/B.img'' @ [LF]))
     ''prefs'' = Inr [(''disks'', VList [''/mac/A.img'', ''/mac/B.img''])]"
proof -
  have o: "open_write no_files ''prefs'' = Inr (set_content no_files ''prefs'' [])"
    by (rule open_write_new) (simp_all add: no_files_def)
  have i1: "iter_disks trailing_space_config = Inr [''/mac/boot.img '']"
    by (simp add: iter_disks_def trailing_space_config_def)
  have w1: "written_text literal_floats [''/mac/boot.img ''] trailing_space_config =
      ''disk /mac/boot.img '' @ [LF]"
    by code_simp
  have p1: "parse_text literal_floats (''disk /mac/boot.img '' @ [LF]) =
      Inr [(''disks'', VList [''/mac/boot.img''])]"
    by code_simp
  have i2: "iter_disks disk_key_config = Inr [''/mac/A.img'']"
    by (simp add: iter_disks_def disk_key_config_def)
  have w2: "written_text literal_floats [''/mac/A.img''] disk_key_config =
      ''disk /mac/A.img'' @ [LF] @ ''disk /mac/B.img'' @ [LF]"
    by code_simp
  have p2: "parse_text literal_floats (''disk /mac/A.img'' @ [LF] @ ''disk /mac/B.img'' @ [LF]) =
      Inr [(''disks'', VList [''/mac/A.img'', ''/mac/B.img''])]"
    by code_simp
  from save_then_parse [OF o i1, of literal_floats] save_then_parse [OF o i2, of literal_floats]
  show ?thesis unfolding w1 w2 p1 p2 by simp
qed

text \<open>
  Claim C2, amended. First: when \<open>parse\<close> returns a document for a file, the disk sequence
  of the document is the list of the values of the file's \<open>disk\<close> lines in file order,
  each value being the text after the first space, unconverted. Second: when no entry of
  the disk sequence of a document holds a line break or ends in whitespace, and every
  scalar entry of the document writes a line that \<open>parse\<close> reads as a scalar line or skips,
  then \<open>save\<close> to a path that opens for writing, followed by \<open>parse\<close> of that path, returns a
  document with exactly that disk sequence.
\<close>

theorem disk_sequence_kept:
  "(nodes fs0 source = Some (File content) \<and> parse ops fs0 source = Inr d \<longrightarrow>
      iter_disks d = Inr (disk_values content)) \<and>
   (iter_disks config = Inr disks \<and> list_all disk_ok disks \<and>
    list_all (scalar_line_ok ops) (scalars config) \<and> open_write fs filepath = Inr fs' \<longrightarrow>
      (\<exists>fs2 d2. save ops fs filepath config = (None, fs2, config) \<and>
                parse ops fs2 filepath = Inr d2 \<and> iter_disks d2 = Inr disks))"
proof (intro conjI impI)
  assume "nodes fs0 source = Some (File content) \<and> parse ops fs0 source = Inr d"
  then have "parse_text ops content = Inr d"
    using parse_existing [of fs0 source content ops] by simp
  from parse_text_disks(1) [OF this] show "iter_disks d = Inr (disk_values content)"
    by (simp add: iter_disks_def)
next
  assume a: "iter_disks config = Inr disks \<and> list_all disk_ok disks \<and>
    list_all (scalar_line_ok ops) (scalars config) \<and> open_write fs filepath = Inr fs'"
  then obtain d2 where "parse_text ops (written_text ops disks config) = Inr d2"
    "iter_disks d2 = Inr disks"
    using written_text_disks_back by blast
  with a save_then_parse [of fs filepath fs' config disks ops]
  show "\<exists>fs2 d2. save ops fs filepath config = (None, fs2, config) \<and>
                parse ops fs2 filepath = Inr d2 \<and> iter_disks d2 = Inr disks"
    by auto
qed

theorem disk_sequence_kept_witness:
  "nodes sample_files ''prefs'' = Some (File sample_text) \<and>
   parse literal_floats sample_files ''prefs'' = Inr sample_parsed \<and>
   iter_disks sample_parsed = Inr (disk_values sample_text) \<and>
   disk_values sample_text = [''/mac/boot.img'', ''/mac/My Files.iso''] \<and>
   iter_disks reordered_config = Inr [''/mac/C.img'', ''/mac/A.img'', ''/mac/B.img''] \<and>
   list_all disk_ok [''/mac/C.img'', ''/mac/A.img'', ''/mac/B.img''] \<and>
   list_all (scalar_line_ok literal_floats) (scalars reordered_config) \<and>
   open_write no_files ''prefs'' = Inr (set_content no_files ''prefs'' []) \<and>
   (\<exists>fs2 d2. save literal_floats no_files ''prefs'' reordered_config = (None, fs2, reordered_config) \<and>
      parse literal_floats fs2 ''prefs'' = Inr d2 \<and>
      iter_disks d2 = Inr [''/mac/C.img'', ''/mac/A.img'', ''/mac/B.img''])"
proof -
  have a: "nodes sample_files ''prefs'' = Some (File sample_text)"
    by (simp add: sample_files_def)
  have b: "parse literal_floats sample_files ''prefs'' = Inr sample_parsed"
    by (simp add: parse_existing [OF a] sample_parse_text)
  have c: "iter_disks reordered_config = Inr [''/mac/C.img'', ''/mac/A.img'', ''/mac/B.img'']"
    by (simp add: iter_disks_def reordered_config_def)
  have d: "list_all disk_ok [''/mac/C.img'', ''/mac/A.img'', ''/mac/B.img'']"
    by code_simp
  have e: "list_all (scalar_line_ok literal_floats) (scalars reordered_config)"
    by code_simp
  have f: "open_write no_files ''prefs'' = Inr (set_content no_files ''prefs'' [])"
    by (rule open_write_new) (simp_all add: no_files_def)
  note t = disk_sequence_kept [of sample_files "''prefs''" sample_text literal_floats
      sample_parsed reordered_config "[''/mac/C.img'', ''/mac/A.img'', ''/mac/B.img'']"
      no_files "''prefs''" "set_content no_files ''prefs'' []"]
  from t a b have g: "iter_disks sample_parsed = Inr (disk_values sample_text)" by blast
  from t c d e f have h: "\<exists>fs2 d2. save literal_floats no_files ''prefs'' reordered_config =
      (None, fs2, reordered_config) \<and> parse literal_floats fs2 ''prefs'' = Inr d2 \<and>
      iter_disks d2 = Inr [''/mac/C.img'', ''/mac/A.img'', ''/mac/B.img'']" by blast
  from a b c d e f g h sample_disk_values show ?thesis by blast
qed

section \<open>The round trip\<close>

subsection \<open>Digits\<close>

lemma lower_char_table:
  "list_all (\<lambda>c. lower_char c = c) ''0123456789.e+-infa''"
  by (simp add: lower_char_def uppercase_def lowercase_def)

lemma lower_char_float_text: "c \<in> set ''0123456789.e+-infa'' \<Longrightarrow> lower_char c = c"
  using lower_char_table unfolding list_all_iff by blast

lemma lower_char_digit: "ascii_digit c \<Longrightarrow> lower_char c = c"
  unfolding ascii_digit_def by (rule lower_char_float_text) auto

lemma lower_digits: "list_all ascii_digit s \<Longrightarrow> lower s = s"
  by (induction s) (simp_all add: lower_def lower_char_digit)

lemma digits_not_bool:
  assumes "list_all ascii_digit s"
  shows "lower s \<noteq> ''true'' \<and> lower s \<noteq> ''false''"
proof -
  have "\<not> ascii_digit CHR ''t''" "\<not> ascii_digit CHR ''f''" by (simp_all add: ascii_digit_def)
  with assms have "s \<noteq> ''true''" "s \<noteq> ''false''" by auto
  with assms show ?thesis by (simp add: lower_digits)
qed

lemma digitpart_digits: "s \<noteq> [] \<Longrightarrow> list_all ascii_digit s \<Longrightarrow> digitpart s"
  by (induction s rule: digitpart.induct) (auto simp: ascii_digit_def)

lemma isdigit_digits: "s \<noteq> [] \<Longrightarrow> list_all ascii_digit s \<Longrightarrow> isdigit s"
  by (auto simp: isdigit_def isdigit_char_def list_all_iff)

lemma number_text_id:
  assumes "\<forall>c \<in> set s. \<not> c_space c \<and> c \<noteq> CHR 0x85 \<and> c \<noteq> CHR 0xA0"
  shows "number_text s = s"
proof -
  from assms have m: "map (\<lambda>c. if c = CHR 0x85 \<or> c = CHR 0xA0 then SP else c) s = s"
    by (induction s) auto
  from assms have d: "dropWhile c_space s = s" by (cases s) auto
  from assms have "dropWhile c_space (rev s) = rev s" by (cases s rule: rev_cases) auto
  with m d show ?thesis by (simp add: number_text_def)
qed

lemma isdigit_char_plain:
  "isdigit_char c \<Longrightarrow>
   \<not> c_space c \<and> c \<noteq> CHR 0x85 \<and> c \<noteq> CHR 0xA0 \<and> c \<noteq> CHR ''-'' \<and> c \<noteq> CHR ''+''"
  by (auto simp: isdigit_char_def ascii_digit_def c_space_def)

lemma py_int_isdigit:
  assumes "isdigit s" and "py_int s = Inr n"
  shows "n = int (digits_val s)"
proof -
  from assms(1) have ne: "s \<noteq> []" and all: "\<forall>c \<in> set s. isdigit_char c"
    by (auto simp: isdigit_def list_all_iff)
  from all have "number_text s = s" by (intro number_text_id) (simp add: isdigit_char_plain)
  moreover from ne all have "unsign s = (False, s)"
    by (cases s) (auto simp: unsign_def dest: isdigit_char_plain)
  ultimately show ?thesis using assms(2) by (simp add: py_int_def split: if_splits)
qed

lemma py_int_digits:
  assumes "s \<noteq> []" and "list_all ascii_digit s"
  shows "py_int s = Inr (int (digits_val s))"
proof -
  from assms(2) have all: "\<forall>c \<in> set s. isdigit_char c"
    by (simp add: list_all_iff isdigit_char_def)
  then have "number_text s = s" by (intro number_text_id) (simp add: isdigit_char_plain)
  moreover from assms(1) all have "unsign s = (False, s)"
    by (cases s) (auto simp: unsign_def dest: isdigit_char_plain)
  ultimately show ?thesis using digitpart_digits [OF assms] by (simp add: py_int_def)
qed

lemma digit_char_table:
  "list_all (\<lambda>d. ascii_digit (digit_char d) \<and> digit_val (digit_char d) = d \<and>
      digit_char d \<noteq> CHR ''_'') [0, 1, 2, 3, 4, 5, 6, 7, 8, 9]"
  by (simp add: digit_char_def ascii_digit_def digit_val_def)

lemma digit_char_digit:
  assumes "d < 10"
  shows "ascii_digit (digit_char d)" and "digit_val (digit_char d) = d"
    and "digit_char d \<noteq> CHR ''_''"
proof -
  from assms have "d \<in> set [0, 1, 2, 3, 4, 5, 6, 7, 8, 9]" by auto
  with digit_char_table show "ascii_digit (digit_char d)" "digit_val (digit_char d) = d"
    "digit_char d \<noteq> CHR ''_''"
    unfolding list_all_iff by blast+
qed

lemma str_nat_digits: "str_nat m \<noteq> [] \<and> list_all ascii_digit (str_nat m)"
proof (induction m rule: str_nat.induct)
  case (1 n)
  show ?case
  proof (cases "n < 10")
    case True
    then show ?thesis by (subst (1 2) str_nat.simps) (simp add: digit_char_digit)
  next
    case False
    with 1 show ?thesis by (subst (1 2) str_nat.simps) (simp add: digit_char_digit)
  qed
qed

lemma digits_val_snoc:
  "c \<noteq> CHR ''_'' \<Longrightarrow> digits_val (s @ [c]) = 10 * digits_val s + digit_val c"
  by (simp add: digits_val_def)

lemma digits_val_str_nat: "digits_val (str_nat m) = m"
proof (induction m rule: str_nat.induct)
  case (1 n)
  show ?case
  proof (cases "n < 10")
    case True
    then show ?thesis
      by (subst str_nat.simps) (simp add: digits_val_def digit_char_digit)
  next
    case False
    with 1 have "digits_val (str_nat (n div 10)) = n div 10" by simp
    with False show ?thesis
      by (subst str_nat.simps) (simp add: digits_val_snoc digit_char_digit)
  qed
qed

lemma convert_str_nat: "convert ops (str_nat m) = Inr (VInt (int m))"
  using str_nat_digits [of m] digits_not_bool [of "str_nat m"] isdigit_digits [of "str_nat m"]
    py_int_digits [of "str_nat m"] digits_val_str_nat [of m]
  by (simp add: convert_def)

subsection \<open>The text of a float\<close>

lemma float_text_table:
  "list_all (\<lambda>c. \<not> isspace c \<and> c \<noteq> LF \<and> c \<noteq> CR \<and> c \<noteq> CHR ''t'' \<and> c \<noteq> CHR ''l'' \<and>
      (isdigit_char c \<longrightarrow> ascii_digit c)) ''0123456789.e+-infa''"
  by (simp add: isspace_def isdigit_char_def ascii_digit_def)

lemma float_text_char:
  assumes "c \<in> set ''0123456789.e+-infa''"
  shows "\<not> isspace c" and "c \<noteq> LF" and "c \<noteq> CR" and "c \<noteq> CHR ''t''" and "c \<noteq> CHR ''l''"
    and "isdigit_char c \<Longrightarrow> ascii_digit c"
  using float_text_table assms unfolding list_all_iff by blast+

lemma float_text_shape_facts:
  assumes "float_text_shape s"
  shows "lower s \<noteq> ''true''" and "lower s \<noteq> ''false''" and "\<not> isdigit s"
    and "one_line s" and "s \<noteq> []" and "\<not> isspace (last s)"
proof -
  from assms have ne: "s \<noteq> []" and al: "\<forall>c \<in> set s. c \<in> set ''0123456789.e+-infa''"
    and nd: "\<not> list_all ascii_digit s"
    by (simp_all add: float_text_shape_def list_all_iff)
  from al have low: "lower s = s"
    unfolding lower_def by (intro map_idI lower_char_float_text) blast
  have "s \<noteq> ''true''"
  proof
    assume "s = ''true''"
    then have "CHR ''t'' \<in> set s" by simp
    with al float_text_char(4) show False by blast
  qed
  with low show "lower s \<noteq> ''true''" by simp
  have "s \<noteq> ''false''"
  proof
    assume "s = ''false''"
    then have "CHR ''l'' \<in> set s" by simp
    with al float_text_char(5) show False by blast
  qed
  with low show "lower s \<noteq> ''false''" by simp
  show "\<not> isdigit s"
  proof
    assume "isdigit s"
    then have "\<forall>c \<in> set s. isdigit_char c" by (simp add: isdigit_def list_all_iff)
    with al float_text_char(6) have "\<forall>c \<in> set s. ascii_digit c" by blast
    with nd show False by (simp add: list_all_iff)
  qed
  from al float_text_char(2,3) show "one_line s" unfolding one_line_def by blast
  show "s \<noteq> []" by (rule ne)
  from ne have "last s \<in> set s" by simp
  with al float_text_char(1) show "\<not> isspace (last s)" by blast
qed

lemma convert_float_str:
  assumes "float_ok ops x"
  shows "convert ops (float_str ops x) = Inr (VFloat x)"
  using assms float_text_shape_facts(1-3) [of "float_str ops x"]
  by (simp add: float_ok_def convert_def)

subsection \<open>What a parsed line leaves in the document\<close>

lemma line_parts:
  assumes "s \<noteq> []" and "\<not> isspace (hd s)" and "\<not> isspace (last s)" and "one_line s"
  shows "line_key s \<noteq> []" and "\<not> isspace (hd (line_key s))" and "SP \<notin> set (line_key s)"
    and "one_line (line_key s)" and "one_line (line_value s)"
    and "\<not> isspace (last (line_key s @ line_value s))"
    and "line_value s = [] \<or> \<not> isspace (last (line_value s))"
proof -
  let ?k = "line_key s" and ?v = "line_value s"
  have "?k \<noteq> [] \<and> \<not> isspace (hd ?k) \<and> SP \<notin> set ?k \<and> one_line ?k \<and> one_line ?v \<and>
        \<not> isspace (last (?k @ ?v)) \<and> (?v = [] \<or> \<not> isspace (last ?v))"
  proof (cases "SP \<in> set s")
    case False
    with assms line_no_space [of s] show ?thesis by (simp add: one_line_def)
  next
    case True
    from line_with_space [OF True] have eq: "s = ?k @ SP # ?v" and nk: "SP \<notin> set ?k"
      by simp_all
    have k: "?k \<noteq> []"
    proof
      assume "?k = []"
      with eq have "hd s = SP" by (metis append_Nil list.sel(1))
      with assms(2) show False by simp
    qed
    with eq have hd: "hd ?k = hd s" by (metis hd_append2)
    have v: "?v \<noteq> []"
    proof
      assume "?v = []"
      with eq have "last s = SP" by (metis last_snoc)
      with assms(3) show False by simp
    qed
    with eq have l: "last ?v = last s" by (metis last_appendR last_ConsR list.distinct(1))
    from eq have "set s = set ?k \<union> insert SP (set ?v)"
      by (metis list.simps(15) set_append)
    with assms(4) have "one_line ?k" "one_line ?v"
      by (simp_all add: one_line_def)
    with k hd v l nk assms show ?thesis by simp
  qed
  then show "line_key s \<noteq> []" and "\<not> isspace (hd (line_key s))" and "SP \<notin> set (line_key s)"
    and "one_line (line_key s)" and "one_line (line_value s)"
    and "\<not> isspace (last (line_key s @ line_value s))"
    and "line_value s = [] \<or> \<not> isspace (last (line_value s))"
    by simp_all
qed

lemma convert_cases:
  assumes "convert ops val = Inr v"
  obtains (true) "v = VBool True"
  | (false) "v = VBool False"
  | (int) m where "v = VInt (int m)"
  | (float) x where "v = VFloat x"
  | (str) "v = VStr val"
proof -
  show thesis
  proof (cases "lower val = ''true'' \<or> lower val = ''false''")
    case True
    with assms true false show ?thesis by (auto simp: convert_def split: if_splits)
  next
    case nb: False
    show ?thesis
    proof (cases "isdigit val")
      case True
      with nb assms obtain n where "py_int val = Inr n" "v = VInt n"
        by (auto simp: convert_def split: sum.splits)
      with py_int_isdigit [OF True] int show ?thesis by blast
    next
      case False
      with nb assms float str show ?thesis
        by (auto simp: convert_def py_float_def split: sum.splits if_splits)
    qed
  qed
qed

lemma convert_true: "convert ops ''true'' = Inr (VBool True)"
  by (simp add: convert_def lower_def lower_char_def uppercase_def lowercase_def)

lemma convert_false: "convert ops ''false'' = Inr (VBool False)"
  by (simp add: convert_def lower_def lower_char_def uppercase_def lowercase_def)

lemma ascii_digit_float_text: "ascii_digit c \<Longrightarrow> c \<in> set ''0123456789.e+-infa''"
  by (auto simp: ascii_digit_def)

lemma digits_line:
  assumes "s \<noteq> []" and "list_all ascii_digit s"
  shows "one_line s" and "\<not> isspace (last s)"
proof -
  from assms(2) have al: "\<forall>c \<in> set s. c \<in> set ''0123456789.e+-infa''"
    unfolding list_all_iff using ascii_digit_float_text by blast
  from al float_text_char(2,3) show "one_line s" unfolding one_line_def by blast
  from assms(1) have "last s \<in> set s" by simp
  with al float_text_char(1) show "\<not> isspace (last s)" by blast
qed

lemma convert_value_text:
  assumes "convert ops val = Inr v" and "float_entry_ok ops (k, v)"
  shows "convert ops (value_text ops v) = Inr v"
    and "v = VStr val \<or> (value_text ops v \<noteq> [] \<and> one_line (value_text ops v) \<and>
           \<not> isspace (last (value_text ops v)))"
proof -
  have "convert ops (value_text ops v) = Inr v \<and>
        (v = VStr val \<or> (value_text ops v \<noteq> [] \<and> one_line (value_text ops v) \<and>
           \<not> isspace (last (value_text ops v))))"
    using assms(1)
  proof (cases rule: convert_cases)
    case true
    then show ?thesis by (simp add: convert_true one_line_def isspace_def)
  next
    case false
    then show ?thesis by (simp add: convert_false one_line_def isspace_def)
  next
    case (int m)
    from str_nat_digits [of m]
    have "one_line (str_nat m)" "\<not> isspace (last (str_nat m))"
      using digits_line [of "str_nat m"] by simp_all
    with int str_nat_digits [of m] show ?thesis
      by (simp add: str_int_def convert_str_nat)
  next
    case (float x)
    with assms(2) have ok: "float_ok ops x" by (simp add: float_entry_ok_def)
    then have "float_text_shape (float_str ops x)" by (simp add: float_ok_def)
    from float_text_shape_facts(4-6) [OF this] convert_float_str [OF ok] float
    show ?thesis by simp
  next
    case str
    with assms(1) show ?thesis by simp
  qed
  then show "convert ops (value_text ops v) = Inr v"
    and "v = VStr val \<or> (value_text ops v \<noteq> [] \<and> one_line (value_text ops v) \<and>
           \<not> isspace (last (value_text ops v)))"
    by simp_all
qed

lemma parsed_entry_ok:
  assumes "s \<noteq> []" and "\<not> isspace (hd s)" and "\<not> isspace (last s)" and "one_line s"
    and "line_key s \<noteq> ''disk''" and "convert ops (line_value s) = Inr v"
    and "float_entry_ok ops (line_key s, v)"
  shows "entry_ok ops (line_key s, v)"
proof -
  note p = line_parts [OF assms(1-4)]
  note c = convert_value_text [OF assms(6,7)]
  from c(2) have "one_line (value_text ops v) \<and>
      \<not> isspace (last (line_key s @ value_text ops v))"
  proof
    assume "v = VStr (line_value s)"
    with p show ?thesis by simp
  next
    assume "value_text ops v \<noteq> [] \<and> one_line (value_text ops v) \<and>
           \<not> isspace (last (value_text ops v))"
    then show ?thesis by simp
  qed
  with p c(1) assms(5) show ?thesis by (simp add: entry_ok_def)
qed

lemma parsed_disk_ok:
  assumes "s \<noteq> []" and "\<not> isspace (hd s)" and "\<not> isspace (last s)" and "one_line s"
  shows "disk_ok (line_value s)"
  using line_parts(5,7) [OF assms] by (simp add: disk_ok_def)

subsection \<open>The documents parse returns\<close>

lemma set_update_subset: "set (AList.update k v al) \<subseteq> insert (k, v) (set al)"
  by (induction al) auto

lemma parse_line_inv:
  assumes "parse_line ops raw st = Inr st'" and "one_line (strip raw)"
    and "\<forall>e \<in> set (fst st). float_entry_ok ops e \<longrightarrow> entry_ok ops e"
    and "list_all disk_ok (snd st)"
  shows "(\<forall>e \<in> set (fst st'). float_entry_ok ops e \<longrightarrow> entry_ok ops e) \<and>
         list_all disk_ok (snd st')"
  using assms(1)
proof (cases rule: parse_line_cases)
  case blank
  with assms show ?thesis by simp
next
  case disk
  from disk(1) assms(2) have "disk_ok (line_value (strip raw))"
    by (intro parsed_disk_ok strip_hd strip_last)
  with disk assms show ?thesis by simp
next
  case (scalar v)
  have new: "float_entry_ok ops (line_key (strip raw), v) \<longrightarrow>
             entry_ok ops (line_key (strip raw), v)"
    using scalar assms(2) by (intro impI parsed_entry_ok strip_hd strip_last)
  have "set (fst st') \<subseteq> insert (line_key (strip raw), v) (set (fst st))"
    using scalar(4) set_update_subset by fastforce
  with new assms(3) have "\<forall>e \<in> set (fst st'). float_entry_ok ops e \<longrightarrow> entry_ok ops e"
    by blast
  with scalar assms(4) show ?thesis by simp
qed

lemma parse_lines_inv:
  assumes "parse_lines ops ls st = Inr st'" and "\<forall>raw \<in> set ls. one_line (strip raw)"
    and "\<forall>e \<in> set (fst st). float_entry_ok ops e \<longrightarrow> entry_ok ops e"
    and "list_all disk_ok (snd st)"
  shows "(\<forall>e \<in> set (fst st'). float_entry_ok ops e \<longrightarrow> entry_ok ops e) \<and>
         list_all disk_ok (snd st')"
  using assms
proof (induction ls arbitrary: st)
  case Nil
  then show ?case by simp
next
  case (Cons raw ls)
  from Cons.prems(1) obtain st1 where s1: "parse_line ops raw st = Inr st1"
    and rest: "parse_lines ops ls st1 = Inr st'"
    by (auto split: sum.splits)
  from Cons.prems(2) have r: "one_line (strip raw)" and rs: "\<forall>raw \<in> set ls. one_line (strip raw)"
    by simp_all
  from parse_line_inv [OF s1 r Cons.prems(3,4)]
  have "\<forall>e \<in> set (fst st1). float_entry_ok ops e \<longrightarrow> entry_ok ops e"
    and "list_all disk_ok (snd st1)" by simp_all
  from Cons.IH [OF rest rs this] show ?case .
qed

lemma scalars_update: "scalars (AList.update ''disks'' v c) = scalars c"
  by (induction c) (auto simp: scalars_def)

lemma scalars_subset: "set (scalars c) \<subseteq> set c"
  by (auto simp: scalars_def)

lemma scalars_keys: "''disks'' \<notin> fst ` set (scalars c)"
  by (auto simp: scalars_def)

lemma distinct_scalars: "distinct (map fst c) \<Longrightarrow> distinct (map fst (scalars c))"
  by (simp add: scalars_def distinct_map_filter)

lemma map_of_scalars: "k \<noteq> ''disks'' \<Longrightarrow> map_of (scalars c) k = map_of c k"
  by (induction c) (auto simp: scalars_def)

subsection \<open>Reading back what save wrote\<close>

lemma update_fresh: "k \<notin> fst ` set c \<Longrightarrow> AList.update k v c = c @ [(k, v)]"
  by (induction c) auto

lemma parse_entry_line:
  assumes "entry_ok ops e"
  shows "parse_line ops (setting_line ops e) st =
           Inr (AList.update (fst e) (snd e) (fst st), snd st)"
proof -
  let ?k = "fst e" and ?s = "value_text ops (snd e)"
  from assms have k: "?k \<noteq> []" "\<not> isspace (hd ?k)" "SP \<notin> set ?k" "?k \<noteq> ''disk''"
    and l: "\<not> isspace (last (?k @ ?s))" and c: "convert ops ?s = Inr (snd e)"
    by (simp_all add: entry_ok_def Let_def)
  show ?thesis
  proof (cases "?s = []")
    case True
    with l have "\<not> isspace (last ?k)" by simp
    with k have "strip (?k @ [SP, LF]) = ?k" by (intro strip_line) simp_all
    with True have s: "strip (setting_line ops e) = ?k" by (simp add: setting_line_def)
    from k(3) line_no_space [of ?k] have "line_key ?k = ?k" "line_value ?k = []" by simp_all
    with s k c True show ?thesis by (simp add: parse_line_def)
  next
    case False
    with l have "\<not> isspace (last ?s)" by simp
    with k False have "strip ((?k @ SP # ?s) @ [LF]) = ?k @ SP # ?s"
      by (intro strip_line) simp_all
    then have s: "strip (setting_line ops e) = ?k @ SP # ?s" by (simp add: setting_line_def)
    from line_join [OF k(3), of ?s] s k c show ?thesis by (simp add: parse_line_def)
  qed
qed

lemma parse_entry_lines:
  "list_all (entry_ok ops) es \<Longrightarrow> distinct (map fst (c @ es)) \<Longrightarrow>
   parse_lines ops (map (setting_line ops) es) (c, ds) = Inr (c @ es, ds)"
proof (induction es arbitrary: c)
  case Nil
  then show ?case by simp
next
  case (Cons e es)
  from Cons.prems(1) have e: "entry_ok ops e" and es: "list_all (entry_ok ops) es" by simp_all
  from Cons.prems(2) have "fst e \<notin> fst ` set c" by auto
  then have u: "AList.update (fst e) (snd e) c = c @ [e]" by (simp add: update_fresh)
  from Cons.prems(2) have "distinct (map fst ((c @ [e]) @ es))" by simp
  from Cons.IH [OF es this] parse_entry_line [OF e, of "(c, ds)"] u show ?case by simp
qed

lemma written_text_back:
  assumes "distinct (map fst config)" and "list_all disk_ok disks"
    and "list_all (entry_ok ops) (scalars config)"
  shows "parse_text ops (written_text ops disks config) =
           Inr (scalars config @ [(''disks'', VList disks)])"
proof -
  from assms(3) have "\<forall>e \<in> set (scalars config). one_line (setting_text ops e)"
    by (auto simp: list_all_iff entry_ok_def setting_text_def Let_def one_line_def)
  from file_lines_written [OF assms(2) this]
  have fl: "file_lines (written_text ops disks config) =
           map disk_line disks @ map (setting_line ops) (scalars config)" .
  have d: "parse_lines ops (map disk_line disks) ([], []) = Inr ([], disks)"
    using parse_disk_lines [OF assms(2), of ops "([], [])"] by simp
  from distinct_scalars [OF assms(1)]
  have "parse_lines ops (map (setting_line ops) (scalars config)) ([], disks) =
          Inr (scalars config, disks)"
    using parse_entry_lines [OF assms(3), of "[]" disks] by simp
  with d fl show ?thesis
    by (simp add: parse_text_def parse_lines_append update_fresh scalars_keys)
qed

lemma written_document:
  assumes "map_of config ''disks'' = Some (VList disks)"
  defines "d2 \<equiv> scalars config @ [(''disks'', VList disks)]"
  shows "iter_disks d2 = iter_disks config" and "scalars d2 = scalars config"
    and "map_of d2 = map_of config"
proof -
  have n: "map_of (scalars config) ''disks'' = None"
    using scalars_keys [of config] by (simp add: map_of_eq_None_iff)
  then have m: "map_of d2 ''disks'' = Some (VList disks)"
    by (simp add: d2_def map_add_def)
  with assms(1) show "iter_disks d2 = iter_disks config" by (simp add: iter_disks_def)
  show "scalars d2 = scalars config" by (simp add: d2_def scalars_def)
  show "map_of d2 = map_of config"
  proof
    fix k
    show "map_of d2 k = map_of config k"
    proof (cases "k = ''disks''")
      case True
      with m assms(1) show ?thesis by simp
    next
      case False
      then have "map_of d2 k = map_of (scalars config) k"
        by (simp add: d2_def map_add_def split: option.splits)
      with False show ?thesis by (simp add: map_of_scalars)
    qed
  qed
qed

text \<open>No string of a parsed document reads as a boolean, an integer or a float: \<open>parse\<close> has
  converted every value that does.\<close>

lemma parsed_strings_unambiguous:
  assumes "parse_text ops content = Inr d" and "(k, VStr s) \<in> set d"
  shows "convert ops s = Inr (VStr s)"
proof -
  from assms(1) obtain c disks
    where p: "parse_lines ops (file_lines content) ([], []) = Inr (c, disks)"
      and d: "d = AList.update ''disks'' (VList disks) c"
    by (rule parse_text_cases)
  have "\<forall>raw \<in> set (file_lines content). one_line (strip raw)"
    using strip_file_line by blast
  from parse_lines_inv [OF p this]
  have inv: "\<forall>e \<in> set c. float_entry_ok ops e \<longrightarrow> entry_ok ops e" by simp
  from parse_text_disks [OF assms(1)] assms(2) have "k \<noteq> ''disks''"
    by (metis map_of_is_SomeI option.inject pyval.distinct(19))
  with assms(2) have "(k, VStr s) \<in> set (scalars d)" by (simp add: scalars_def)
  with d scalars_subset [of c] have "(k, VStr s) \<in> set c" by (auto simp: scalars_update)
  with inv have "entry_ok ops (k, VStr s)" by (auto simp: float_entry_ok_def)
  then show ?thesis by (simp add: entry_ok_def)
qed

text \<open>
  Claim C1. Let \<open>d\<close> be the document \<open>parse\<close> returns for some file, and let \<open>str\<close> give for
  every float of \<open>d\<close> a text of the shape of a float that reads back as that float. Then
  \<open>save\<close> of \<open>d\<close> to a path that opens for writing raises nothing, and \<open>parse\<close> of that path
  returns a document with the same disk sequence in the same order, the same scalar
  entries, and the same value under every key. The condition of the claim on the strings
  of \<open>d\<close> holds of every such \<open>d\<close>, by \<open>parsed_strings_unambiguous\<close>.
\<close>

theorem save_parse_round_trip:
  assumes "nodes fs0 source = Some (File content)" and "parse ops fs0 source = Inr d"
    and "floats_ok ops d" and "open_write fs filepath = Inr fs'"
  shows "\<exists>fs2 d2. save ops fs filepath d = (None, fs2, d) \<and>
           parse ops fs2 filepath = Inr d2 \<and>
           iter_disks d2 = iter_disks d \<and> scalars d2 = scalars d \<and> map_of d2 = map_of d"
proof -
  from assms(1,2) have pt: "parse_text ops content = Inr d"
    using parse_existing [of fs0 source content ops] by simp
  then obtain c disks
    where p: "parse_lines ops (file_lines content) ([], []) = Inr (c, disks)"
      and d: "d = AList.update ''disks'' (VList disks) c"
    by (rule parse_text_cases)
  have "\<forall>raw \<in> set (file_lines content). one_line (strip raw)"
    using strip_file_line by blast
  from parse_lines_inv [OF p this]
  have inv: "\<forall>e \<in> set c. float_entry_ok ops e \<longrightarrow> entry_ok ops e" and dk: "list_all disk_ok disks"
    by simp_all
  from d have sc: "scalars d = scalars c" by (simp add: scalars_update)
  from assms(3) have "\<forall>e \<in> set (scalars d). float_entry_ok ops e"
    using scalars_subset [of d] by (auto simp: floats_ok_def list_all_iff)
  with inv sc scalars_subset [of c] have ok: "list_all (entry_ok ops) (scalars d)"
    by (auto simp: list_all_iff)
  from parse_text_disks [OF pt] d have m: "map_of d ''disks'' = Some (VList disks)"
    and dist: "distinct (map fst d)"
    by (simp_all add: update_conv')
  from m have it: "iter_disks d = Inr disks" by (simp add: iter_disks_def)
  let ?d2 = "scalars d @ [(''disks'', VList disks)]"
  from written_text_back [OF dist dk ok]
  have "parse_text ops (written_text ops disks d) = Inr ?d2" .
  with save_then_parse [OF assms(4) it, of ops]
  have "save ops fs filepath d = (None, set_content fs filepath (written_text ops disks d), d)"
    and "parse ops (set_content fs filepath (written_text ops disks d)) filepath = Inr ?d2"
    by simp_all
  with written_document [OF m] show ?thesis by blast
qed

theorem save_parse_round_trip_witness:
  "nodes sample_files ''prefs'' = Some (File sample_text) \<and>
   parse literal_floats sample_files ''prefs'' = Inr sample_parsed \<and>
   floats_ok literal_floats sample_parsed \<and>
   open_write sample_files ''copy'' = Inr (set_content sample_files ''copy'' []) \<and>
   (\<exists>fs2 d2. save literal_floats sample_files ''copy'' sample_parsed = (None, fs2, sample_parsed) \<and>
      parse literal_floats fs2 ''copy'' = Inr d2 \<and>
      iter_disks d2 = iter_disks sample_parsed \<and> scalars d2 = scalars sample_parsed \<and>
      map_of d2 = map_of sample_parsed)"
proof -
  have a: "nodes sample_files ''prefs'' = Some (File sample_text)"
    by (simp add: sample_files_def)
  have b: "parse literal_floats sample_files ''prefs'' = Inr sample_parsed"
    by (simp add: parse_existing [OF a] sample_parse_text)
  have c: "floats_ok literal_floats sample_parsed" by (rule sample_floats_ok)
  have d: "open_write sample_files ''copy'' = Inr (set_content sample_files ''copy'' [])"
    by (rule open_write_new) (simp_all add: sample_files_def)
  show ?thesis
    using a b c d save_parse_round_trip [OF a b c d] by simp
qed

section \<open>Missing files and refused writes\<close>

text \<open>
  Claim C5. For a path that does not exist \<open>parse\<close> raises nothing and returns the empty
  document: it has no scalar entry, and its disk sequence, read as \<open>save\<close> reads it, is
  empty.
\<close>

theorem parse_missing_file:
  assumes "\<not> path_exists fs filepath"
  shows "\<exists>d. parse ops fs filepath = Inr d \<and> d = [] \<and> scalars d = [] \<and> iter_disks d = Inr []"
  using assms by (simp add: parse_def scalars_def iter_disks_def)

theorem parse_missing_file_witness:
  "\<not> path_exists no_files ''prefs'' \<and> parse literal_floats no_files ''prefs'' = Inr []"
  using parse_missing_file [of no_files "''prefs''" literal_floats]
  by (simp add: path_exists_def no_files_def)

text \<open>
  Claim C9. When the path does not open for writing, \<open>save\<close> hands the I/O error to its
  caller, and the files and the document are after the call what they were before it.
\<close>

theorem save_refused:
  assumes "open_write fs filepath = Inl e"
  shows "e = OSError \<and> save ops fs filepath config = (Some OSError, fs, config)"
  using assms by (auto simp: save_def open_write_def split: if_splits)

theorem save_refused_witness:
  "open_write refusing_files ''prefs'' = Inl OSError \<and>
   save literal_floats refusing_files ''prefs'' sample_config =
     (Some OSError, refusing_files, sample_config)"
proof -
  have r: "open_write refusing_files ''prefs'' = Inl OSError"
    by (simp add: open_write_def refusing_files_def)
  show ?thesis using r save_refused [OF r, of literal_floats sample_config] by simp
qed

text \<open>Whatever its outcome, \<open>save\<close> leaves the document as it was.\<close>

lemma save_keeps_document: "snd (snd (save ops fs filepath config)) = config"
  by (simp add: save_def split: sum.splits)

section \<open>The conversion of a value\<close>

text \<open>On a value without a superscript digit the conversion follows the precedence
  boolean, integer, float, string and raises nothing.\<close>

lemma isdigit_without_superscripts:
  assumes "\<forall>c \<in> set s. c \<notin> set [CHR 0xB2, CHR 0xB3, CHR 0xB9]"
  shows "isdigit s \<longleftrightarrow> s \<noteq> [] \<and> list_all ascii_digit s"
  using assms by (auto simp: isdigit_def isdigit_char_def list_all_iff)

lemma convert_without_superscripts:
  assumes "\<forall>c \<in> set s. c \<notin> set [CHR 0xB2, CHR 0xB3, CHR 0xB9]"
  shows "convert ops s =
     (if lower s = ''true'' then Inr (VBool True)
      else if lower s = ''false'' then Inr (VBool False)
      else if s \<noteq> [] \<and> list_all ascii_digit s then Inr (VInt (int (digits_val s)))
      else if float_syntax s then Inr (VFloat (float_value ops s))
      else Inr (VStr s))"
  using isdigit_without_superscripts [OF assms] py_int_digits [of s]
  by (simp add: convert_def py_float_def)

lemma convert_examples:
  "convert literal_floats ''TRUE'' = Inr (VBool True)"
  "convert literal_floats ''True'' = Inr (VBool True)"
  "convert literal_floats ''true'' = Inr (VBool True)"
  "convert literal_floats ''False'' = Inr (VBool False)"
  "convert literal_floats ''128'' = Inr (VInt 128)"
  "convert literal_floats ''1.5'' = Inr (VFloat ''1.5'')"
  "convert literal_floats ''/dev/dsp'' = Inr (VStr ''/dev/dsp'')"
  "convert literal_floats [] = Inr (VStr [])"
  by code_simp+

subsection \<open>Superscript digits\<close>

text \<open>
  Claim C4, at the value superscript two. \<open>isdigit\<close> holds of it, so the conversion calls
  \<open>int\<close>, and \<open>int\<close> rejects it: the conversion raises \<open>ValueError\<close> where the claim has the
  value stay a string.
\<close>

theorem convert_superscript: "convert ops [CHR 0xB2] = Inl ValueError"
  by (simp add: convert_def lower_def lower_char_def uppercase_def lowercase_def
      isdigit_def isdigit_char_def ascii_digit_def
      py_int_def number_text_def c_space_def unsign_def)

text \<open>
  Claim C7, at a file whose one line is \<open>ramsize\<close>, a space and superscript two: \<open>parse\<close>
  raises \<open>ValueError\<close> and returns no document.
\<close>

theorem parse_superscript: "parse ops superscript_files ''prefs'' = Inl ValueError"
  by (simp add: parse_def path_exists_def open_read_def superscript_files_def
      parse_text_def file_lines_def parse_line_def strip_def lstrip_def rstrip_def isspace_def
      line_key_def line_value_def split_space1_def convert_def lower_def lower_char_def
      uppercase_def lowercase_def isdigit_def isdigit_char_def ascii_digit_def
      py_int_def number_text_def c_space_def unsign_def)

end
